theory Spec2Isabelle
  imports Main
begin

section \<open>Memory, errors and loops\<close>

text \<open>
  The kernels of \<^verbatim>\<open>src/kernel/cpu/spmm.h\<close> and of the CUDA SDDMM header work on raw
  pointers into flat buffers. A buffer is a list, an index (\<^verbatim>\<open>IdType\<close>, \<^verbatim>\<open>int64_t\<close>,
  \<^verbatim>\<open>int\<close>) is an \<^typ>\<open>int\<close> (no wrap-around is modelled), and every access that is
  undefined behaviour in C++ (a null pointer, an index outside the buffer, a division
  by zero) or that ends the process (\<^verbatim>\<open>LOG(FATAL)\<close>, \<^verbatim>\<open>CHECK\<close>) is the \<open>Inl\<close> branch of
  the result.
\<close>

datatype error = NullDeref | OutOfBounds | DivByZero | Fatal string

definition bind :: "error + 'a \<Rightarrow> ('a \<Rightarrow> error + 'b) \<Rightarrow> error + 'b" where
  "bind m f = (case m of Inl e \<Rightarrow> Inl e | Inr v \<Rightarrow> f v)"

text \<open>\<^verbatim>\<open>xs[i]\<close> as a read and \<^verbatim>\<open>xs[i] = v\<close> as a write.\<close>

definition rd :: "'a list \<Rightarrow> int \<Rightarrow> error + 'a" where
  "rd xs i = (if 0 \<le> i \<and> i < int (length xs) then Inr (xs ! nat i) else Inl OutOfBounds)"

definition wr :: "'a list \<Rightarrow> int \<Rightarrow> 'a \<Rightarrow> error + 'a list" where
  "wr xs i v = (if 0 \<le> i \<and> i < int (length xs) then Inr (xs[nat i := v]) else Inl OutOfBounds)"

text \<open>A read-only pointer: \<^verbatim>\<open>nullptr\<close>, or a buffer with an offset into it.\<close>

datatype 'a ptr = nullptr | Ptr "'a list" int

fun ptr_add :: "'a ptr \<Rightarrow> int \<Rightarrow> 'a ptr" where
  "ptr_add nullptr n = nullptr"
| "ptr_add (Ptr b i) n = Ptr b (i + n)"

fun deref :: "'a ptr \<Rightarrow> error + 'a" where
  "deref nullptr = Inl NullDeref"
| "deref (Ptr b i) = rd b i"

text \<open>
  \<^verbatim>\<open>for (i = lo; i < n; ++i) body\<close>, the loop state threaded through the body; an
  error in the body ends the loop.
\<close>

function for_loop :: "int \<Rightarrow> int \<Rightarrow> (int \<Rightarrow> 's \<Rightarrow> error + 's) \<Rightarrow> 's \<Rightarrow> error + 's" where
  "for_loop i n body s =
     (if i < n
      then (case body i s of Inl e \<Rightarrow> Inl e | Inr s' \<Rightarrow> for_loop (i + 1) n body s')
      else Inr s)"
  by pat_completeness auto
termination
  by (relation "measure (\<lambda>(i, n, body, s). nat (n - i))") auto

declare for_loop.simps [simp del]

section \<open>Tensors and sparse matrices\<close>

text \<open>
  \<^verbatim>\<open>NDArray\<close>: the shape (\<^verbatim>\<open>ndim\<close> is its length) and the flat row-major buffer behind
  \<^verbatim>\<open>->data\<close>. A feature tensor that the caller may leave out is an \<open>option\<close>.
\<close>

record 'a NDArray =
  nd_shape :: "int list"
  nd_data :: "'a list"

text \<open>
  Modelled from the spec: \<^verbatim>\<open>aten::IsNullArray\<close> is declared in \<^verbatim>\<open>dgl/array.h\<close>, which
  is not part of the sources at hand. The spec calls such an array "absent" (the optional
  \<^verbatim>\<open>data\<close> permutation, a null or absent operand tensor), so an absent array is \<open>None\<close>.
\<close>

definition IsNullArray :: "'b option \<Rightarrow> bool" where
  "IsNullArray a = (a = None)"

text \<open>\<^verbatim>\<open>t->data\<close> on a tensor handle: reading through an absent handle is a null dereference.\<close>

definition data_ptr :: "'a NDArray option \<Rightarrow> error + 'a ptr" where
  "data_ptr t = (case t of None \<Rightarrow> Inl NullDeref | Some a \<Rightarrow> Inr (Ptr (nd_data a) 0))"

text \<open>\<^verbatim>\<open>dim = 1; for (i = 1; i < out->ndim; ++i) dim *= out->shape[i];\<close>\<close>

definition feat_dim :: "int list \<Rightarrow> int" where
  "feat_dim sh = foldl (\<lambda>d i. d * sh ! i) 1 [1 ..< length sh]"

text \<open>\<^verbatim>\<open>out.Numel()\<close>: the product of all extents.\<close>

definition Numel :: "'a NDArray \<Rightarrow> int" where
  "Numel t = foldl (\<lambda>d i. d * nd_shape t ! i) 1 [0 ..< length (nd_shape t)]"

record CSRMatrix =
  csr_num_rows :: int
  csr_num_cols :: int
  csr_indptr :: "int list"
  csr_indices :: "int list"
  csr_data :: "int list option"

record COOMatrix =
  coo_num_rows :: int
  coo_num_cols :: int
  coo_row :: "int list"
  coo_col :: "int list"
  coo_data :: "int list option"

text \<open>
  \<^verbatim>\<open>edges = has_idx ? data->data : nullptr\<close> and \<^verbatim>\<open>eid = has_idx ? edges[j] : j\<close>.
\<close>

definition edges_ptr :: "int list option \<Rightarrow> int ptr" where
  "edges_ptr d = (case d of None \<Rightarrow> nullptr | Some es \<Rightarrow> Ptr es 0)"

definition edge_id :: "int list option \<Rightarrow> int \<Rightarrow> error + int" where
  "edge_id d j = (if \<not> IsNullArray d then deref (ptr_add (edges_ptr d) j) else Inr j)"

section \<open>Operator library\<close>

datatype binop = Add | Mul | CopyLhs | CopyRhs

fun use_lhs :: "binop \<Rightarrow> bool" where
  "use_lhs Add = True"
| "use_lhs Mul = True"
| "use_lhs CopyLhs = True"
| "use_lhs CopyRhs = False"

fun use_rhs :: "binop \<Rightarrow> bool" where
  "use_rhs Add = True"
| "use_rhs Mul = True"
| "use_rhs CopyLhs = False"
| "use_rhs CopyRhs = True"

text \<open>\<^verbatim>\<open>Op::Call(lhs_off, rhs_off)\<close> dereferences the operands the operator names.\<close>

fun Call :: "binop \<Rightarrow> ('a :: {plus, times}) ptr \<Rightarrow> 'a ptr \<Rightarrow> error + 'a" where
  "Call Add lhs_off rhs_off = bind (deref lhs_off) (\<lambda>l. bind (deref rhs_off) (\<lambda>r. Inr (l + r)))"
| "Call Mul lhs_off rhs_off = bind (deref lhs_off) (\<lambda>l. bind (deref rhs_off) (\<lambda>r. Inr (l * r)))"
| "Call CopyLhs lhs_off rhs_off = deref lhs_off"
| "Call CopyRhs lhs_off rhs_off = deref rhs_off"

text \<open>
  The compare operators. \<^verbatim>\<open>std::numeric_limits<DType>\<close> is the C++ library's; its two
  constants are a parameter of the model.
\<close>

datatype cmpop = Max_op | Min_op

record 'a numeric_limits =
  lowest :: 'a
  highest :: 'a

fun Cmp_zero :: "'a numeric_limits \<Rightarrow> cmpop \<Rightarrow> 'a" where
  "Cmp_zero L Max_op = lowest L"
| "Cmp_zero L Min_op = highest L"

fun Cmp_Call :: "cmpop \<Rightarrow> ('a :: linorder) \<Rightarrow> 'a \<Rightarrow> bool" where
  "Cmp_Call Max_op accum val = (accum < val)"
| "Cmp_Call Min_op accum val = (accum > val)"

text \<open>
  \<^verbatim>\<open>SWITCH_OP(op, Op, ...)\<close>: the body runs with the operator the name selects; any other
  name is fatal.
\<close>

definition SWITCH_OP :: "string \<Rightarrow> (binop \<Rightarrow> error + 'r) \<Rightarrow> error + 'r" where
  "SWITCH_OP op body =
     (if op = ''add'' then body Add
      else if op = ''mul'' then body Mul
      else if op = ''copy_u'' then body CopyLhs
      else if op = ''copy_e'' then body CopyRhs
      else Inl (Fatal (''Unsupported SpMM binary operator: '' @ op)))"

section \<open>Unimplemented paths\<close>

text \<open>
  \<^verbatim>\<open>BcastInfo\<close> is declared in \<^verbatim>\<open>binary_reduce.h\<close>; the fields the SDDMM entry points read
  are these.
\<close>

record BcastInfo =
  info_lhs_offset :: "int list"
  info_rhs_offset :: "int list"
  info_lhs_shape :: "int list"
  info_rhs_shape :: "int list"
  info_out_shape :: "int list"

text \<open>
  The two stubs consist of \<^verbatim>\<open>LOG(FATAL) << "not implemented"\<close> alone. The result pairs
  the outcome with the tensors the call leaves behind.
\<close>

definition SpMMBcastSumCsr ::
  "binop \<Rightarrow> BcastInfo \<Rightarrow> CSRMatrix \<Rightarrow> 'a NDArray option \<Rightarrow> 'a NDArray option \<Rightarrow> 'a NDArray
   \<Rightarrow> (error + unit) \<times> 'a NDArray" where
  "SpMMBcastSumCsr op info csr ufeat efeat out = (Inl (Fatal ''not implemented''), out)"

definition SpMMBcastCmpCsr ::
  "binop \<Rightarrow> cmpop \<Rightarrow> BcastInfo \<Rightarrow> CSRMatrix \<Rightarrow> 'a NDArray option \<Rightarrow> 'a NDArray option
   \<Rightarrow> 'a NDArray \<Rightarrow> int NDArray option \<Rightarrow> int NDArray option
   \<Rightarrow> (error + unit) \<times> 'a NDArray \<times> int NDArray option \<times> int NDArray option" where
  "SpMMBcastCmpCsr op cmp info csr ufeat efeat out argu arge =
     (Inl (Fatal ''not implemented''), out, argu, arge)"

section \<open>Index resolver\<close>

text \<open>
  C++ integer division and remainder truncate towards zero, and a zero divisor is
  undefined behaviour.
\<close>

definition c_div :: "int \<Rightarrow> int \<Rightarrow> error + int" where
  "c_div a b = (if b = 0 then Inl DivByZero else Inr (sgn a * sgn b * (\<bar>a\<bar> div \<bar>b\<bar>)))"

definition c_mod :: "int \<Rightarrow> int \<Rightarrow> error + int" where
  "c_mod a b = (if b = 0 then Inl DivByZero else Inr (sgn a * (\<bar>a\<bar> mod \<bar>b\<bar>)))"

text \<open>
  One round of either loop of \<^verbatim>\<open>UnravelRavel\<close>: the coordinate \<^verbatim>\<open>i = (idx / o_st) % o_sh\<close>
  of dimension \<open>d\<close>, added to the accumulated operand index (\<open>acc\<close>) when the operand's
  extent exceeds it.
\<close>

definition ravel_step ::
  "int \<Rightarrow> int list \<Rightarrow> int list \<Rightarrow> int list \<Rightarrow> int list \<Rightarrow> int \<Rightarrow> int \<Rightarrow> error + int" where
  "ravel_step idx out_shape out_stride op_shape op_stride d acc =
     bind (rd out_shape d) (\<lambda>o_sh.
     bind (rd out_stride d) (\<lambda>o_st.
     bind (rd op_shape d) (\<lambda>op_sh.
     bind (rd op_stride d) (\<lambda>op_st.
     bind (c_div idx o_st) (\<lambda>q.
     bind (c_mod q o_sh) (\<lambda>i.
       Inr (if op_sh > i then acc + i * op_st else acc)))))))"

text \<open>
  The out-parameters \<^verbatim>\<open>*lhs_out\<close> and \<^verbatim>\<open>*rhs_out\<close> are the pair \<open>outs\<close> on entry and the
  returned pair on exit.
\<close>

definition UnravelRavel ::
  "int \<Rightarrow> int \<Rightarrow> int list \<Rightarrow> int list \<Rightarrow> int list \<Rightarrow> int list \<Rightarrow> int list \<Rightarrow> int list
   \<Rightarrow> int \<times> int \<Rightarrow> error + int \<times> int" where
  "UnravelRavel idx ndim out_shape out_stride lhs_shape lhs_stride rhs_shape rhs_stride outs =
     bind (rd out_stride 0) (\<lambda>os0.
     bind (rd lhs_stride 0) (\<lambda>ls0.
       if os0 = ls0 then
         bind (for_loop 0 ndim
                 (\<lambda>d (lhs_out, rhs_out).
                    bind (ravel_step idx out_shape out_stride rhs_shape rhs_stride d rhs_out)
                      (\<lambda>rhs_out'. Inr (lhs_out, rhs_out')))
                 outs)
           (\<lambda>(lhs_out, rhs_out). Inr (idx, rhs_out))
       else
         bind (for_loop 0 ndim
                 (\<lambda>d (lhs_out, rhs_out).
                    bind (ravel_step idx out_shape out_stride lhs_shape lhs_stride d lhs_out)
                      (\<lambda>lhs_out'. Inr (lhs_out', rhs_out)))
                 outs)
           (\<lambda>(lhs_out, rhs_out). Inr (lhs_out, idx))))"

text \<open>
  The uniform formula of the spec, for comparison: the sum over the dimensions of
  \<open>min (coord d) (extent d - 1) * stride d\<close>, with \<open>coord d = (idx / out_stride d) % out_shape d\<close>.
\<close>

definition spec_ravel :: "int \<Rightarrow> int list \<Rightarrow> int list \<Rightarrow> int list \<Rightarrow> int list \<Rightarrow> int" where
  "spec_ravel idx out_shape out_stride op_shape op_stride =
     (\<Sum>d\<leftarrow>[0 ..< length out_shape].
        min ((idx div out_stride ! d) mod out_shape ! d) (op_shape ! d - 1) * op_stride ! d)"

text \<open>Row-major contiguous strides: the stride of a dimension is the product of the later extents.\<close>

definition row_major :: "int list \<Rightarrow> int list \<Rightarrow> bool" where
  "row_major sh st =
     (length st = length sh \<and> (\<forall>d \<in> set [0 ..< length sh]. st ! d = prod_list (drop (Suc d) sh)))"

text \<open>Every extent of the operand is the output's or 1.\<close>

definition bcast_shape :: "int list \<Rightarrow> int list \<Rightarrow> bool" where
  "bcast_shape out_shape op_shape =
     (length op_shape = length out_shape
      \<and> (\<forall>d \<in> set [0 ..< length out_shape]. op_shape ! d = out_shape ! d \<or> op_shape ! d = 1))"

section \<open>SDDMM on the GPU\<close>

text \<open>
  \<^verbatim>\<open>BinarySearchSrc\<close>: the loop on \<open>lo\<close> and \<open>hi\<close>, then the test of \<^verbatim>\<open>array[hi]\<close>.
  \<^verbatim>\<open>>> 1\<close> is \<open>drop_bit 1\<close>.
\<close>

function BinarySearchSrc_loop :: "int list \<Rightarrow> int \<Rightarrow> int \<Rightarrow> int \<Rightarrow> error + int" where
  "BinarySearchSrc_loop array eid lo hi =
     (if lo < hi
      then (case rd array (drop_bit 1 (lo + hi)) of
              Inl e \<Rightarrow> Inl e
            | Inr a \<Rightarrow>
                if a \<le> eid then BinarySearchSrc_loop array eid (drop_bit 1 (lo + hi) + 1) hi
                else BinarySearchSrc_loop array eid lo (drop_bit 1 (lo + hi)))
      else Inr hi)"
  by pat_completeness auto
termination
  by (relation "measure (\<lambda>(array, eid, lo, hi). nat (hi - lo))")
     (auto simp: drop_bit_eq_div)

declare BinarySearchSrc_loop.simps [simp del]

definition BinarySearchSrc :: "int list \<Rightarrow> int \<Rightarrow> int \<Rightarrow> error + int" where
  "BinarySearchSrc array len eid =
     bind (BinarySearchSrc_loop array eid 0 (len - 1)) (\<lambda>hi.
     bind (rd array hi) (\<lambda>a.
       if a = eid then Inr hi else Inr (hi - 1)))"

text \<open>
  The row that holds an edge position, as the spec words it: the row \<open>r\<close> with
  \<open>indptr r \<le> eid < indptr (r + 1)\<close>.
\<close>

definition row_of :: "int list \<Rightarrow> int \<Rightarrow> int \<Rightarrow> int list" where
  "row_of indptr num_rows eid =
     filter (\<lambda>r. indptr ! nat r \<le> eid \<and> eid < indptr ! nat (r + 1)) [0 .. num_rows - 1]"

text \<open>
  The binary operators of SDDMM live in \<^verbatim>\<open>binary_reduce_impl_decl.h\<close>, which is not under
  the sources at hand: the flags the code reads and the four-argument \<^verbatim>\<open>Call\<close> are
  parameters.
\<close>

record 'a sddmm_op =
  sd_use_lhs :: bool
  sd_use_rhs :: bool
  reduce_last_dim :: bool
  sd_Call :: "'a ptr \<Rightarrow> 'a ptr \<Rightarrow> int \<Rightarrow> int \<Rightarrow> error + 'a"

text \<open>\<^verbatim>\<open>off ? off[tx] : tx\<close> for the optional broadcast offset tables.\<close>

definition bcast_off :: "int list option \<Rightarrow> int \<Rightarrow> error + int" where
  "bcast_off off tx = (case off of None \<Rightarrow> Inr tx | Some t \<Rightarrow> rd t tx)"

text \<open>
  The kernels, sequentially: the grid-stride loops of all threads together visit every
  edge position below \<open>E\<close> and every feature index below \<open>out_len\<close> once.
\<close>

definition SDDMM_feat_loop ::
  "'a sddmm_op \<Rightarrow> 'a ptr \<Rightarrow> 'a ptr \<Rightarrow> int \<Rightarrow> int \<Rightarrow> int list option \<Rightarrow> int list option
   \<Rightarrow> int \<Rightarrow> 'a list \<Rightarrow> error + 'a list" where
  "SDDMM_feat_loop op lhsoff rhsoff eid reduce_size ubcast_off vbcast_off out_len out =
     for_loop 0 out_len
       (\<lambda>tx out.
          bind (bcast_off ubcast_off tx) (\<lambda>lhs_add.
          bind (bcast_off vbcast_off tx) (\<lambda>rhs_add.
          bind (sd_Call op (ptr_add lhsoff (lhs_add * reduce_size))
                  (ptr_add rhsoff (rhs_add * reduce_size)) reduce_size reduce_size) (\<lambda>val.
            wr out (eid * out_len + tx) val))))
       out"

definition SDDMMCooKernel ::
  "'a sddmm_op \<Rightarrow> 'a ptr \<Rightarrow> 'a ptr \<Rightarrow> 'a list \<Rightarrow> int list \<Rightarrow> int list \<Rightarrow> int list option
   \<Rightarrow> int \<Rightarrow> int \<Rightarrow> int \<Rightarrow> int \<Rightarrow> int list option \<Rightarrow> int list option \<Rightarrow> int \<Rightarrow> int \<Rightarrow> int
   \<Rightarrow> error + 'a list" where
  "SDDMMCooKernel op ufeat vfeat out row col edge_map N M E reduce_size ubcast_off vbcast_off
       ufeat_len vfeat_len out_len =
     for_loop 0 E
       (\<lambda>ty out.
          bind (rd row ty) (\<lambda>src.
          bind (rd col ty) (\<lambda>dst.
          bind (edge_id edge_map ty) (\<lambda>eid.
            SDDMM_feat_loop op
              (if sd_use_lhs op then ptr_add ufeat (src * ufeat_len * reduce_size) else nullptr)
              (if sd_use_rhs op then ptr_add vfeat (dst * vfeat_len * reduce_size) else nullptr)
              eid reduce_size ubcast_off vbcast_off out_len out))))
       out"

definition SDDMMCsrKernel ::
  "'a sddmm_op \<Rightarrow> 'a ptr \<Rightarrow> 'a ptr \<Rightarrow> 'a list \<Rightarrow> int list \<Rightarrow> int list \<Rightarrow> int list option
   \<Rightarrow> int \<Rightarrow> int \<Rightarrow> int \<Rightarrow> int \<Rightarrow> int list option \<Rightarrow> int list option \<Rightarrow> int \<Rightarrow> int \<Rightarrow> int
   \<Rightarrow> error + 'a list" where
  "SDDMMCsrKernel op ufeat vfeat out indptr indices edge_map N M E reduce_size ubcast_off
       vbcast_off ufeat_len vfeat_len out_len =
     for_loop 0 E
       (\<lambda>ty out.
          bind (BinarySearchSrc indptr N ty) (\<lambda>src.
          bind (rd indices ty) (\<lambda>dst.
          bind (edge_id edge_map ty) (\<lambda>eid.
            SDDMM_feat_loop op
              (if sd_use_lhs op then ptr_add ufeat (src * ufeat_len) else nullptr)
              (if sd_use_rhs op then ptr_add vfeat (dst * vfeat_len) else nullptr)
              eid reduce_size ubcast_off vbcast_off out_len out))))
       out"

text \<open>
  The host entry points. \<^verbatim>\<open>t->ndim\<close> and \<^verbatim>\<open>t->shape[i]\<close> read through the tensor handle,
  so on an absent tensor they are a null dereference; \<^verbatim>\<open>CHECK\<close> is fatal when it fails.
\<close>

definition shape_of :: "'a NDArray option \<Rightarrow> error + int list" where
  "shape_of t = (case t of None \<Rightarrow> Inl NullDeref | Some a \<Rightarrow> Inr (nd_shape a))"

definition feat_data_ptr :: "'a NDArray option \<Rightarrow> 'a ptr" where
  "feat_data_ptr t = (case t of None \<Rightarrow> nullptr | Some a \<Rightarrow> Ptr (nd_data a) 0)"

definition reduce_dim_of :: "'a sddmm_op \<Rightarrow> 'a NDArray option \<Rightarrow> error + int" where
  "reduce_dim_of op ufeat =
     (if reduce_last_dim op
      then (if IsNullArray ufeat then Inl (Fatal ''Check failed: !aten::IsNullArray(ufeat)'')
            else bind (shape_of ufeat) (\<lambda>sh. rd sh (int (length sh) - 1)))
      else Inr 1)"

text \<open>
  The launch configuration: \<open>(x, y)\<close> of \<^verbatim>\<open>nblks\<close>, then \<open>(x, y)\<close> of \<^verbatim>\<open>nthrs\<close>.
  \<^verbatim>\<open>utils::FindNumThreads\<close> is defined in \<^verbatim>\<open>utils.h\<close>, outside the sources at hand: it is
  the parameter \<open>FindNumThreads\<close>.
\<close>

type_synonym dim3 = "int \<times> int"

definition SDDMMCoo_launch :: "(int \<Rightarrow> int \<Rightarrow> int) \<Rightarrow> int \<Rightarrow> int \<Rightarrow> error + dim3 \<times> dim3" where
  "SDDMMCoo_launch FindNumThreads len nnz =
     (let ntx = FindNumThreads len 1024 in
      bind (c_div 1024 ntx) (\<lambda>nty.
      bind (c_div (len + ntx - 1) ntx) (\<lambda>nbx.
      bind (c_div (nnz + nty - 1) nty) (\<lambda>nby.
        Inr ((nbx, nby), (ntx, nty))))))"

definition SDDMMCsr_launch :: "int \<Rightarrow> int \<Rightarrow> dim3 \<times> dim3" where
  "SDDMMCsr_launch E len = ((E, 1), (1, if 128 < len then 128 else len))"

definition SDDMMCoo ::
  "(int \<Rightarrow> int \<Rightarrow> int) \<Rightarrow> 'a sddmm_op \<Rightarrow> COOMatrix \<Rightarrow> 'a NDArray option \<Rightarrow> 'a NDArray option
   \<Rightarrow> 'a NDArray \<Rightarrow> error + (dim3 \<times> dim3) \<times> 'a list" where
  "SDDMMCoo FindNumThreads op coo ufeat vfeat out =
     (let row = coo_row coo; col = coo_col coo; edge_map = coo_data coo;
          ufeat_data = feat_data_ptr ufeat; vfeat_data = feat_data_ptr vfeat;
          len = feat_dim (nd_shape out)
      in bind (reduce_dim_of op ufeat) (\<lambda>reduce_dim.
         let nnz = int (length row) in
         bind (SDDMMCoo_launch FindNumThreads len nnz) (\<lambda>cfg.
         bind (SDDMMCooKernel op ufeat_data vfeat_data (nd_data out) row col edge_map
                 (coo_num_rows coo) (coo_num_cols coo) nnz reduce_dim None None len len len)
           (\<lambda>out'. Inr (cfg, out')))))"

definition SDDMMCsr ::
  "'a sddmm_op \<Rightarrow> CSRMatrix \<Rightarrow> 'a NDArray option \<Rightarrow> 'a NDArray option
   \<Rightarrow> 'a NDArray \<Rightarrow> error + (dim3 \<times> dim3) \<times> 'a list" where
  "SDDMMCsr op csr ufeat vfeat out =
     (let indptr = csr_indptr csr; indices = csr_indices csr; edge_map = csr_data csr;
          ufeat_data = feat_data_ptr ufeat; vfeat_data = feat_data_ptr vfeat;
          N = csr_num_rows csr; M = csr_num_cols csr; E = int (length indices)
      in bind (shape_of ufeat) (\<lambda>ush.
         let len = feat_dim ush in
         bind (reduce_dim_of op ufeat) (\<lambda>reduce_dim.
         bind (SDDMMCsrKernel op ufeat_data vfeat_data (nd_data out) indptr indices edge_map
                 N M E reduce_dim None None len len len)
           (\<lambda>out'. Inr (SDDMMCsr_launch E len, out')))))"

section \<open>SDDMM with broadcasting\<close>

text \<open>
  \<^verbatim>\<open>DLContext ctx = ufeat->ctx\<close> reads through the handle of \<open>ufeat\<close>, whatever the operator
  uses; the context itself plays no part in what follows.
\<close>

definition ctx_of :: "'a NDArray option \<Rightarrow> error + unit" where
  "ctx_of t = (case t of None \<Rightarrow> Inl NullDeref | Some a \<Rightarrow> Inr ())"

text \<open>
  \<^verbatim>\<open>for (size_t i = 1; i < info.out_shape.size(); ++i)\<close> multiplies up \<^verbatim>\<open>len\<close>,
  \<^verbatim>\<open>lhs_len\<close> and \<^verbatim>\<open>rhs_len\<close>, all three starting at 1; the three vectors are indexed by the
  same \<open>i\<close>, which a shorter operand shape does not have.
\<close>

definition bcast_lens :: "BcastInfo \<Rightarrow> error + int \<times> int \<times> int" where
  "bcast_lens info =
     for_loop 1 (int (length (info_out_shape info)))
       (\<lambda>i (len, lhs_len, rhs_len).
          bind (rd (info_out_shape info) i) (\<lambda>o_sh.
          bind (rd (info_lhs_shape info) i) (\<lambda>l_sh.
          bind (rd (info_rhs_shape info) i) (\<lambda>r_sh.
            Inr (len * o_sh, lhs_len * l_sh, rhs_len * r_sh)))))
       (1, 1, 1)"

text \<open>
  The broadcasting entry points copy the two offset tables of \<open>info\<close> to the device, launch
  the same kernels with the tables and the three widths, and release the copies. The launch
  configurations are those of \<^verbatim>\<open>SDDMMCoo\<close> and \<^verbatim>\<open>SDDMMCsr\<close>, on the width of
  \<^verbatim>\<open>info.out_shape\<close>.
\<close>

definition SDDMMBcastCoo ::
  "(int \<Rightarrow> int \<Rightarrow> int) \<Rightarrow> 'a sddmm_op \<Rightarrow> BcastInfo \<Rightarrow> COOMatrix \<Rightarrow> 'a NDArray option
   \<Rightarrow> 'a NDArray option \<Rightarrow> 'a NDArray \<Rightarrow> error + (dim3 \<times> dim3) \<times> 'a list" where
  "SDDMMBcastCoo FindNumThreads op info coo ufeat vfeat out =
     (let row = coo_row coo; col = coo_col coo; edge_map = coo_data coo;
          ufeat_data = feat_data_ptr ufeat; vfeat_data = feat_data_ptr vfeat
      in bind (ctx_of ufeat) (\<lambda>ctx.
         let ubcast_off = Some (info_lhs_offset info); vbcast_off = Some (info_rhs_offset info) in
         bind (bcast_lens info) (\<lambda>(len, lhs_len, rhs_len).
         bind (reduce_dim_of op ufeat) (\<lambda>reduce_dim.
         let nnz = int (length row) in
         bind (SDDMMCoo_launch FindNumThreads len nnz) (\<lambda>cfg.
         bind (SDDMMCooKernel op ufeat_data vfeat_data (nd_data out) row col edge_map
                 (coo_num_rows coo) (coo_num_cols coo) nnz reduce_dim ubcast_off vbcast_off
                 lhs_len rhs_len len)
           (\<lambda>out'. Inr (cfg, out')))))))"

definition SDDMMBcastCsr ::
  "'a sddmm_op \<Rightarrow> BcastInfo \<Rightarrow> CSRMatrix \<Rightarrow> 'a NDArray option \<Rightarrow> 'a NDArray option
   \<Rightarrow> 'a NDArray \<Rightarrow> error + (dim3 \<times> dim3) \<times> 'a list" where
  "SDDMMBcastCsr op info csr ufeat vfeat out =
     (let indptr = csr_indptr csr; indices = csr_indices csr; edge_map = csr_data csr;
          ufeat_data = feat_data_ptr ufeat; vfeat_data = feat_data_ptr vfeat;
          N = csr_num_rows csr; M = csr_num_cols csr; E = int (length indices)
      in bind (ctx_of ufeat) (\<lambda>ctx.
         let ubcast_off = Some (info_lhs_offset info); vbcast_off = Some (info_rhs_offset info) in
         bind (bcast_lens info) (\<lambda>(len, lhs_len, rhs_len).
         bind (reduce_dim_of op ufeat) (\<lambda>reduce_dim.
         bind (SDDMMCsrKernel op ufeat_data vfeat_data (nd_data out) indptr indices edge_map
                 N M E reduce_dim ubcast_off vbcast_off lhs_len rhs_len len)
           (\<lambda>out'. Inr (SDDMMCsr_launch E len, out'))))))"

text \<open>
  Modelled from the spec: \<^verbatim>\<open>utils::FindNumThreads\<close> is defined in \<^verbatim>\<open>utils.h\<close>, which is not
  among the sources at hand; the entry points above take it as a parameter. The spec says of
  it that the block dimension is computed from the feature width and is close to but not
  exceeding the maximum, 1024. The model starts from the maximum and halves it while it
  exceeds the width, down to 1 at the least: the result is the largest of \<open>max\<close>, \<open>max / 2\<close>,
  \<open>max / 4\<close>, ... that does not exceed the width, and 1 for a width below 1.
\<close>

function FindNumThreads_loop :: "int \<Rightarrow> int \<Rightarrow> int" where
  "FindNumThreads_loop ret dim =
     (if dim < ret \<and> 1 < ret then FindNumThreads_loop (drop_bit 1 ret) dim else ret)"
  by pat_completeness auto
termination
  by (relation "measure (\<lambda>(ret, dim). nat ret)") (auto simp: drop_bit_eq_div)

declare FindNumThreads_loop.simps [simp del]

definition FindNumThreads :: "int \<Rightarrow> int \<Rightarrow> int" where
  "FindNumThreads dim max_nthrs = FindNumThreads_loop max_nthrs dim"

text \<open>
  The launch configuration in the spec's words, for the feature width \<open>len\<close> and \<open>nnz\<close>
  nonzeros: the feature-axis block dimension \<open>ntx\<close> is close to but not exceeding 1024 (it is
  1024, or more than half the width; and it does not exceed a positive width), the edge axis
  gets the remaining capacity \<open>1024 div ntx\<close>, and the grid is the width and the number of
  nonzeros divided by the block dimensions, rounded up.
\<close>

definition launch_by_width :: "int \<Rightarrow> int \<Rightarrow> dim3 \<times> dim3 \<Rightarrow> bool" where
  "launch_by_width len nnz cfg =
     (case cfg of ((nbx, nby), (ntx, nty)) \<Rightarrow>
        0 < ntx \<and> ntx \<le> 1024 \<and> (ntx = 1024 \<or> len < 2 * ntx) \<and> (ntx \<le> len \<or> ntx = 1)
        \<and> nty = 1024 div ntx \<and> ntx * nty = 1024
        \<and> nbx = (len + ntx - 1) div ntx \<and> len \<le> nbx * ntx \<and> (nbx - 1) * ntx < len
        \<and> nby = (nnz + nty - 1) div nty \<and> nnz \<le> nby * nty \<and> (nby - 1) * nty < nnz)"

text \<open>The contribution of dimension \<open>d\<close> to the uniform formula.\<close>

definition ravel_term :: "int \<Rightarrow> int list \<Rightarrow> int list \<Rightarrow> int list \<Rightarrow> int list \<Rightarrow> nat \<Rightarrow> int" where
  "ravel_term idx out_shape out_stride op_shape op_stride d =
     min ((idx div out_stride ! d) mod out_shape ! d) (op_shape ! d - 1) * op_stride ! d"

section \<open>SpMM on the CPU\<close>

text \<open>
  The kernels are embedded sequentially: \<^verbatim>\<open>#pragma omp parallel for\<close> loops run in index
  order, \<^verbatim>\<open>omp atomic\<close> and \<^verbatim>\<open>omp critical\<close> are the plain statement. \<^verbatim>\<open>DType\<close> is a type
  with exact arithmetic.

  \<^verbatim>\<open>X = Op::use_lhs ? static_cast<DType*>(ufeat->data) : nullptr\<close>, and the same for \<open>W\<close>.
\<close>

definition operand_ptr :: "bool \<Rightarrow> 'a NDArray option \<Rightarrow> error + 'a ptr" where
  "operand_ptr used t = (if used then data_ptr t else Inr nullptr)"

text \<open>
  \<^verbatim>\<open>lhs_off = Op::use_lhs ? X + cid * dim + k : nullptr\<close>, \<^verbatim>\<open>rhs_off\<close> likewise, and
  \<^verbatim>\<open>Op::Call(lhs_off, rhs_off)\<close>.
\<close>

definition SpMM_val :: "binop \<Rightarrow> ('a :: {plus, times}) ptr \<Rightarrow> 'a ptr \<Rightarrow> int \<Rightarrow> int \<Rightarrow> int \<Rightarrow> int
   \<Rightarrow> error + 'a" where
  "SpMM_val op X W dim cid eid k =
     Call op (if use_lhs op then ptr_add X (cid * dim + k) else nullptr)
             (if use_rhs op then ptr_add W (eid * dim + k) else nullptr)"

text \<open>
  The head of the innermost loop body of both CSR kernels: \<^verbatim>\<open>cid = indices[j]\<close>,
  \<^verbatim>\<open>eid = has_idx ? edges[j] : j\<close>, and the combined value.
\<close>

definition csr_candidate :: "binop \<Rightarrow> ('a :: {plus, times}) ptr \<Rightarrow> 'a ptr \<Rightarrow> int \<Rightarrow> CSRMatrix
   \<Rightarrow> int \<Rightarrow> int \<Rightarrow> error + int \<times> int \<times> 'a" where
  "csr_candidate op X W dim csr k j =
     bind (rd (csr_indices csr) j) (\<lambda>cid.
     bind (edge_id (csr_data csr) j) (\<lambda>eid.
     bind (SpMM_val op X W dim cid eid k) (\<lambda>val.
       Inr (cid, eid, val))))"

definition SpMMSumCsr :: "binop \<Rightarrow> CSRMatrix \<Rightarrow> ('a :: {zero, plus, times}) NDArray option
   \<Rightarrow> 'a NDArray option \<Rightarrow> 'a NDArray \<Rightarrow> error + 'a list" where
  "SpMMSumCsr op csr ufeat efeat out =
     bind (operand_ptr (use_lhs op) ufeat) (\<lambda>X.
     bind (operand_ptr (use_rhs op) efeat) (\<lambda>W.
     let dim = feat_dim (nd_shape out) in
     for_loop 0 (csr_num_rows csr)
       (\<lambda>rid obuf.
          bind (rd (csr_indptr csr) rid) (\<lambda>row_start.
          bind (rd (csr_indptr csr) (rid + 1)) (\<lambda>row_end.
          for_loop 0 dim
            (\<lambda>k obuf.
               bind (for_loop row_start row_end
                       (\<lambda>j accum.
                          bind (csr_candidate op X W dim csr k j) (\<lambda>(cid, eid, val).
                            Inr (accum + val)))
                       0)
                 (\<lambda>accum. wr obuf (rid * dim + k) accum))
            obuf)))
       (nd_data out)))"

text \<open>\<^verbatim>\<open>memset(O, 0, out.GetSize())\<close>: the first \<^verbatim>\<open>Numel()\<close> elements become zero.\<close>

definition memset_zero :: "('a :: zero) list \<Rightarrow> int \<Rightarrow> error + 'a list" where
  "memset_zero obuf n =
     (if 0 \<le> n \<and> n \<le> int (length obuf) then Inr (replicate (nat n) 0 @ drop (nat n) obuf)
      else Inl OutOfBounds)"

definition SpMMSumCoo :: "binop \<Rightarrow> COOMatrix \<Rightarrow> ('a :: {zero, plus, times}) NDArray option
   \<Rightarrow> 'a NDArray option \<Rightarrow> 'a NDArray \<Rightarrow> error + 'a list" where
  "SpMMSumCoo op coo ufeat efeat out =
     bind (operand_ptr (use_lhs op) ufeat) (\<lambda>X.
     bind (operand_ptr (use_rhs op) efeat) (\<lambda>W.
     let dim = feat_dim (nd_shape out); nnz = int (length (coo_row coo)) in
     bind (memset_zero (nd_data out) (Numel out)) (\<lambda>obuf.
     for_loop 0 nnz
       (\<lambda>i obuf.
          bind (rd (coo_row coo) i) (\<lambda>rid.
          bind (rd (coo_col coo) i) (\<lambda>cid.
          bind (edge_id (coo_data coo) i) (\<lambda>eid.
          for_loop 0 dim
            (\<lambda>k obuf.
               bind (SpMM_val op X W dim rid eid k) (\<lambda>val.
               bind (rd obuf (cid * dim + k)) (\<lambda>old.
                 wr obuf (cid * dim + k) (old + val))))
            obuf))))
       obuf)))"

text \<open>
  \<^verbatim>\<open>argX = Op::use_lhs ? static_cast<IdType*>(argu->data) : nullptr\<close>: a pointer the kernel
  writes through, \<open>None\<close> for \<^verbatim>\<open>nullptr\<close>; \<^verbatim>\<open>if (Op::use_lhs) argx_off[k] = ax\<close>.
\<close>

definition arg_ptr :: "bool \<Rightarrow> int NDArray option \<Rightarrow> error + int list option" where
  "arg_ptr used t =
     (if used then (case t of None \<Rightarrow> Inl NullDeref | Some a \<Rightarrow> Inr (Some (nd_data a)))
      else Inr None)"

definition arg_write :: "bool \<Rightarrow> int list option \<Rightarrow> int \<Rightarrow> int \<Rightarrow> error + int list option" where
  "arg_write used p i v =
     (if used
      then (case p of None \<Rightarrow> Inl NullDeref | Some xs \<Rightarrow> bind (wr xs i v) (\<lambda>xs'. Inr (Some xs')))
      else Inr p)"

text \<open>
  The compare step of \<^verbatim>\<open>SpMMCmpCsr\<close> on the accumulator and the two argument registers:
  \<^verbatim>\<open>if (Cmp::Call(accum, val)) { accum = val; if (Op::use_lhs) ax = cid; if (Op::use_rhs) aw = eid; }\<close>.
\<close>

fun cmp_step :: "binop \<Rightarrow> cmpop \<Rightarrow> int \<times> int \<times> ('a :: linorder) \<Rightarrow> 'a \<times> int \<times> int
   \<Rightarrow> 'a \<times> int \<times> int" where
  "cmp_step op cmp (cid, eid, val) (accum, ax, aw) =
     (if Cmp_Call cmp accum val
      then (val, if use_lhs op then cid else ax, if use_rhs op then eid else aw)
      else (accum, ax, aw))"

text \<open>
  The result of the compare kernels: the buffers behind \<open>O\<close>, \<open>argX\<close> and \<open>argW\<close> after the
  call (\<open>None\<close>: the kernel holds no pointer into that argument tensor).
\<close>

definition SpMMCmpCsr :: "'a numeric_limits \<Rightarrow> binop \<Rightarrow> cmpop \<Rightarrow> CSRMatrix
   \<Rightarrow> ('a :: {plus, times, linorder}) NDArray option \<Rightarrow> 'a NDArray option \<Rightarrow> 'a NDArray
   \<Rightarrow> int NDArray option \<Rightarrow> int NDArray option
   \<Rightarrow> error + 'a list \<times> int list option \<times> int list option" where
  "SpMMCmpCsr L op cmp csr ufeat efeat out argu arge =
     bind (operand_ptr (use_lhs op) ufeat) (\<lambda>X.
     bind (operand_ptr (use_rhs op) efeat) (\<lambda>W.
     let dim = feat_dim (nd_shape out) in
     bind (arg_ptr (use_lhs op) argu) (\<lambda>argX.
     bind (arg_ptr (use_rhs op) arge) (\<lambda>argW.
     for_loop 0 (csr_num_rows csr)
       (\<lambda>rid st.
          bind (rd (csr_indptr csr) rid) (\<lambda>row_start.
          bind (rd (csr_indptr csr) (rid + 1)) (\<lambda>row_end.
          for_loop 0 dim
            (\<lambda>k (obuf, argX, argW).
               bind (for_loop row_start row_end
                       (\<lambda>j st.
                          bind (csr_candidate op X W dim csr k j) (\<lambda>c.
                            Inr (cmp_step op cmp c st)))
                       (Cmp_zero L cmp, 0, 0))
                 (\<lambda>(accum, ax, aw).
                    bind (wr obuf (rid * dim + k) accum) (\<lambda>obuf.
                    bind (arg_write (use_lhs op) argX (rid * dim + k) ax) (\<lambda>argX.
                    bind (arg_write (use_rhs op) argW (rid * dim + k) aw) (\<lambda>argW.
                      Inr (obuf, argX, argW))))))
            st)))
       (nd_data out, argX, argW)))))"

definition SpMMCmpCoo :: "'a numeric_limits \<Rightarrow> binop \<Rightarrow> cmpop \<Rightarrow> COOMatrix
   \<Rightarrow> ('a :: {plus, times, linorder}) NDArray option \<Rightarrow> 'a NDArray option \<Rightarrow> 'a NDArray
   \<Rightarrow> int NDArray option \<Rightarrow> int NDArray option
   \<Rightarrow> error + 'a list \<times> int list option \<times> int list option" where
  "SpMMCmpCoo L op cmp coo ufeat efeat out argu arge =
     bind (operand_ptr (use_lhs op) ufeat) (\<lambda>X.
     bind (operand_ptr (use_rhs op) efeat) (\<lambda>W.
     let dim = feat_dim (nd_shape out) in
     bind (arg_ptr (use_lhs op) argu) (\<lambda>argX.
     bind (arg_ptr (use_rhs op) arge) (\<lambda>argW.
     let nnz = int (length (coo_row coo)) in
     bind (for_loop 0 (Numel out) (\<lambda>i obuf. wr obuf i (Cmp_zero L cmp)) (nd_data out)) (\<lambda>obuf.
     for_loop 0 nnz
       (\<lambda>i st.
          bind (rd (coo_row coo) i) (\<lambda>rid.
          bind (rd (coo_col coo) i) (\<lambda>cid.
          bind (edge_id (coo_data coo) i) (\<lambda>eid.
          for_loop 0 dim
            (\<lambda>k (obuf, argX, argW).
               bind (SpMM_val op X W dim rid eid k) (\<lambda>val.
               bind (rd obuf (cid * dim + k)) (\<lambda>cur.
                 if Cmp_Call cmp cur val
                 then bind (wr obuf (cid * dim + k) val) (\<lambda>obuf.
                      bind (arg_write (use_lhs op) argX (cid * dim + k) rid) (\<lambda>argX.
                      bind (arg_write (use_rhs op) argW (cid * dim + k) eid) (\<lambda>argW.
                        Inr (obuf, argX, argW))))
                 else Inr (obuf, argX, argW))))
            st))))
       (obuf, argX, argW))))))"

section \<open>Specification vocabulary\<close>

text \<open>
  The words of the spec, for stating the properties: the buffer of a feature tensor, the
  value a binary operator combines, the edge id of a nonzero position, and the candidate
  value of a nonzero at a feature index.
\<close>

definition feat :: "'a NDArray option \<Rightarrow> 'a list" where
  "feat t = (case t of None \<Rightarrow> [] | Some a \<Rightarrow> nd_data a)"

fun combine :: "binop \<Rightarrow> ('a :: {plus, times}) \<Rightarrow> 'a \<Rightarrow> 'a" where
  "combine Add l r = l + r"
| "combine Mul l r = l * r"
| "combine CopyLhs l r = l"
| "combine CopyRhs l r = r"

definition eid_of :: "int list option \<Rightarrow> int \<Rightarrow> int" where
  "eid_of d j = (case d of None \<Rightarrow> j | Some es \<Rightarrow> es ! nat j)"

definition csr_val :: "binop \<Rightarrow> CSRMatrix \<Rightarrow> ('a :: {plus, times}) NDArray option
   \<Rightarrow> 'a NDArray option \<Rightarrow> int \<Rightarrow> int \<Rightarrow> int \<Rightarrow> 'a" where
  "csr_val op csr ufeat efeat dim k j =
     combine op (feat ufeat ! nat (csr_indices csr ! nat j * dim + k))
                (feat efeat ! nat (eid_of (csr_data csr) j * dim + k))"

definition coo_val :: "binop \<Rightarrow> COOMatrix \<Rightarrow> ('a :: {plus, times}) NDArray option
   \<Rightarrow> 'a NDArray option \<Rightarrow> int \<Rightarrow> int \<Rightarrow> int \<Rightarrow> 'a" where
  "coo_val op coo ufeat efeat dim k i =
     combine op (feat ufeat ! nat (coo_row coo ! nat i * dim + k))
                (feat efeat ! nat (eid_of (coo_data coo) i * dim + k))"

text \<open>
  A CSR matrix as the data model has it: \<open>indptr\<close> has \<open>num_rows + 1\<close> entries, is
  monotonically non-decreasing and spans the indices array; an id permutation, when present,
  has one entry per nonzero.
\<close>

definition csr_wf :: "CSRMatrix \<Rightarrow> bool" where
  "csr_wf csr =
     (0 \<le> csr_num_rows csr
      \<and> int (length (csr_indptr csr)) = csr_num_rows csr + 1
      \<and> sorted (csr_indptr csr)
      \<and> csr_indptr csr ! 0 = 0
      \<and> csr_indptr csr ! nat (csr_num_rows csr) = int (length (csr_indices csr))
      \<and> (case csr_data csr of None \<Rightarrow> True | Some es \<Rightarrow> length es = length (csr_indices csr)))"

text \<open>
  The operand contract of section 6: a tensor the operator uses is present and holds a row of
  \<open>dim\<close> features for every id that indexes it.
\<close>

definition operand_ok :: "bool \<Rightarrow> 'a NDArray option \<Rightarrow> int \<Rightarrow> int list \<Rightarrow> bool" where
  "operand_ok used t dim ids =
     (if used
      then (case t of None \<Rightarrow> False
            | Some a \<Rightarrow> list_all (\<lambda>i. 0 \<le> i \<and> (i + 1) * dim \<le> int (length (nd_data a))) ids)
      else True)"

definition edge_ids :: "int list option \<Rightarrow> nat \<Rightarrow> int list" where
  "edge_ids d nnz = (case d of None \<Rightarrow> map int [0 ..< nnz] | Some es \<Rightarrow> es)"

text \<open>
  A buffer \<open>xs\<close> that agrees with \<open>f\<close> on the positions from \<open>lo\<close> up to \<open>hi\<close> and with the
  buffer \<open>xs0\<close> elsewhere.
\<close>

definition filled :: "'a list \<Rightarrow> 'a list \<Rightarrow> int \<Rightarrow> int \<Rightarrow> (int \<Rightarrow> 'a) \<Rightarrow> bool" where
  "filled xs0 xs lo hi f =
     (length xs = length xs0
      \<and> (\<forall>p. 0 \<le> p \<and> p < int (length xs0) \<longrightarrow>
            xs ! nat p = (if lo \<le> p \<and> p < hi then f p else xs0 ! nat p)))"

text \<open>The sum over the nonzero positions of row \<open>r\<close> of the candidate values at feature \<open>k\<close>.\<close>

definition csr_sum :: "binop \<Rightarrow> CSRMatrix \<Rightarrow> ('a :: semiring_0) NDArray option
   \<Rightarrow> 'a NDArray option \<Rightarrow> int \<Rightarrow> int \<Rightarrow> int \<Rightarrow> 'a" where
  "csr_sum op csr ufeat efeat dim r k =
     (\<Sum>j = csr_indptr csr ! nat r ..< csr_indptr csr ! nat (r + 1).
        csr_val op csr ufeat efeat dim k j)"

text \<open>
  The same for a buffer behind a pointer that is null when the operand is not used.
\<close>

definition opt_filled :: "bool \<Rightarrow> 'a list \<Rightarrow> 'a list option \<Rightarrow> int \<Rightarrow> int \<Rightarrow> (int \<Rightarrow> 'a) \<Rightarrow> bool" where
  "opt_filled used xs0 p lo hi f =
     (if used then (case p of None \<Rightarrow> False | Some xs \<Rightarrow> filled xs0 xs lo hi f) else p = None)"

text \<open>
  The argument tensor of an operand the operator uses is present and holds \<open>n\<close> elements.
\<close>

definition arg_ok :: "bool \<Rightarrow> int NDArray option \<Rightarrow> int \<Rightarrow> bool" where
  "arg_ok used t n =
     (if used then (case t of None \<Rightarrow> False | Some a \<Rightarrow> n \<le> int (length (nd_data a)))
      else True)"

text \<open>
  The candidates of row \<open>r\<close> at feature \<open>k\<close> in traversal order, each with its neighbour id
  and its edge id, and the accumulator and argument registers after the compare steps on them.
\<close>

definition csr_cands :: "binop \<Rightarrow> CSRMatrix \<Rightarrow> ('a :: {plus, times}) NDArray option
   \<Rightarrow> 'a NDArray option \<Rightarrow> int \<Rightarrow> int \<Rightarrow> int \<Rightarrow> (int \<times> int \<times> 'a) list" where
  "csr_cands op csr ufeat efeat dim r k =
     map (\<lambda>j. (csr_indices csr ! nat j, eid_of (csr_data csr) j, csr_val op csr ufeat efeat dim k j))
       [csr_indptr csr ! nat r .. csr_indptr csr ! nat (r + 1) - 1]"

definition csr_cmp_cell :: "'a numeric_limits \<Rightarrow> binop \<Rightarrow> cmpop \<Rightarrow> CSRMatrix
   \<Rightarrow> ('a :: {plus, times, linorder}) NDArray option \<Rightarrow> 'a NDArray option \<Rightarrow> int \<Rightarrow> int \<Rightarrow> int
   \<Rightarrow> 'a \<times> int \<times> int" where
  "csr_cmp_cell L op cmp csr ufeat efeat dim r k =
     fold (cmp_step op cmp) (csr_cands op csr ufeat efeat dim r k) (Cmp_zero L cmp, 0, 0)"

text \<open>
  What the compare steps on a list of candidates, from the accumulator \<open>z\<close> and the argument
  registers \<open>x0\<close> and \<open>y0\<close>, leave behind: no candidate and not \<open>z\<close> would replace the
  accumulator; and either the accumulator is \<open>z\<close> with the registers untouched, or it is
  strictly better than \<open>z\<close> and the registers of the operands in use name the first candidate
  in traversal order that has the accumulator's value.
\<close>

definition cmp_post :: "binop \<Rightarrow> cmpop \<Rightarrow> ('a :: linorder) \<Rightarrow> int \<Rightarrow> int
   \<Rightarrow> (int \<times> int \<times> 'a) list \<Rightarrow> 'a \<times> int \<times> int \<Rightarrow> bool" where
  "cmp_post op cmp z x0 y0 cs st =
     (case st of (a, ax, aw) \<Rightarrow>
        (\<forall>c \<in> set cs. \<not> Cmp_Call cmp a (snd (snd c)))
        \<and> \<not> Cmp_Call cmp a z
        \<and> ((a = z \<and> ax = x0 \<and> aw = y0)
           \<or> (\<exists>i < length cs. snd (snd (cs ! i)) = a \<and> Cmp_Call cmp z a
                 \<and> (\<forall>i' < i. snd (snd (cs ! i')) \<noteq> a)
                 \<and> ax = (if use_lhs op then fst (cs ! i) else x0)
                 \<and> aw = (if use_rhs op then fst (snd (cs ! i)) else y0))))"

text \<open>The extreme value a compare operator selects from a set.\<close>

fun cmp_red :: "cmpop \<Rightarrow> ('a :: linorder) set \<Rightarrow> 'a" where
  "cmp_red Max_op S = Max S"
| "cmp_red Min_op S = Min S"

text \<open>
  Every candidate value of the matrix lies between the lowest and the highest representable
  value of the element type.
\<close>

definition cands_in_range :: "'a numeric_limits \<Rightarrow> binop \<Rightarrow> CSRMatrix
   \<Rightarrow> ('a :: {plus, times, linorder}) NDArray option \<Rightarrow> 'a NDArray option \<Rightarrow> int \<Rightarrow> bool" where
  "cands_in_range L op csr ufeat efeat dim =
     list_all (\<lambda>j. list_all (\<lambda>k. lowest L \<le> csr_val op csr ufeat efeat dim k j
                                   \<and> csr_val op csr ufeat efeat dim k j \<le> highest L)
                       [0 .. dim - 1])
       [0 .. int (length (csr_indices csr)) - 1]"

text \<open>
  A COO matrix as the data model has it: parallel arrays \<open>row\<close> and \<open>col\<close>, and an id
  permutation, when present, of the same length. Every aggregation target (a \<open>col\<close> entry)
  owns a row of \<open>dim\<close> features in a buffer of \<open>len\<close> elements.
\<close>

definition coo_wf :: "COOMatrix \<Rightarrow> bool" where
  "coo_wf coo =
     (length (coo_col coo) = length (coo_row coo)
      \<and> (case coo_data coo of None \<Rightarrow> True | Some es \<Rightarrow> length es = length (coo_row coo)))"

definition targets_ok :: "int list \<Rightarrow> int \<Rightarrow> int \<Rightarrow> bool" where
  "targets_ok cols dim len = list_all (\<lambda>c. 0 \<le> c \<and> (c + 1) * dim \<le> len) cols"

text \<open>
  Whether the nonzero \<open>i\<close> of a COO matrix writes the flat output position \<open>p\<close>, what it adds
  there, and the sum of what the first \<open>n\<close> nonzeros add there.
\<close>

definition coo_hits :: "COOMatrix \<Rightarrow> int \<Rightarrow> int \<Rightarrow> int \<Rightarrow> bool" where
  "coo_hits coo dim p i =
     (coo_col coo ! nat i * dim \<le> p \<and> p < coo_col coo ! nat i * dim + dim)"

definition coo_contrib :: "binop \<Rightarrow> COOMatrix \<Rightarrow> ('a :: semiring_0) NDArray option
   \<Rightarrow> 'a NDArray option \<Rightarrow> int \<Rightarrow> int \<Rightarrow> int \<Rightarrow> 'a" where
  "coo_contrib op coo ufeat efeat dim p i =
     (if coo_hits coo dim p i
      then coo_val op coo ufeat efeat dim (p - coo_col coo ! nat i * dim) i else 0)"

definition coo_sum :: "binop \<Rightarrow> COOMatrix \<Rightarrow> ('a :: semiring_0) NDArray option
   \<Rightarrow> 'a NDArray option \<Rightarrow> int \<Rightarrow> int \<Rightarrow> int \<Rightarrow> 'a" where
  "coo_sum op coo ufeat efeat dim n p = (\<Sum>i = 0 ..< n. coo_contrib op coo ufeat efeat dim p i)"

text \<open>
  The candidates that the first \<open>n\<close> nonzeros offer to the flat position \<open>p\<close>, in traversal
  order, and the value and argument entries of \<open>p\<close> after the compare steps on them, from
  the identity and the entries \<open>x0\<close>, \<open>y0\<close> the caller supplied.
\<close>

definition coo_cands :: "binop \<Rightarrow> COOMatrix \<Rightarrow> ('a :: {plus, times}) NDArray option
   \<Rightarrow> 'a NDArray option \<Rightarrow> int \<Rightarrow> int \<Rightarrow> int \<Rightarrow> (int \<times> int \<times> 'a) list" where
  "coo_cands op coo ufeat efeat dim n p =
     map (\<lambda>i. (coo_row coo ! nat i, eid_of (coo_data coo) i,
                coo_val op coo ufeat efeat dim (p - coo_col coo ! nat i * dim) i))
       (filter (coo_hits coo dim p) [0 .. n - 1])"

definition coo_cmp_cell :: "'a numeric_limits \<Rightarrow> binop \<Rightarrow> cmpop \<Rightarrow> COOMatrix
   \<Rightarrow> ('a :: {plus, times, linorder}) NDArray option \<Rightarrow> 'a NDArray option \<Rightarrow> int
   \<Rightarrow> int list \<Rightarrow> int list \<Rightarrow> int \<Rightarrow> int \<Rightarrow> 'a \<times> int \<times> int" where
  "coo_cmp_cell L op cmp coo ufeat efeat dim xs0 ys0 n p =
     fold (cmp_step op cmp) (coo_cands op coo ufeat efeat dim n p)
       (Cmp_zero L cmp, xs0 ! nat p, ys0 ! nat p)"

text \<open>
  A CSR matrix and a COO matrix that present the same logical matrix under the
  incoming-edges convention of the COO path: the nonzero at the CSR position \<open>j\<close> of row
  \<open>r\<close> is the COO entry \<open>perm ! j\<close>, whose \<open>col\<close> is the aggregation target \<open>r\<close>, whose \<open>row\<close> is
  the neighbour \<open>indices[j]\<close>, and whose edge id is that of \<open>j\<close>; \<open>perm\<close> is a permutation of
  the nonzero positions, since COO entries come in no particular order.
\<close>

definition same_matrix :: "CSRMatrix \<Rightarrow> COOMatrix \<Rightarrow> int list \<Rightarrow> bool" where
  "same_matrix csr coo perm =
     (length (coo_row coo) = length (csr_indices csr)
      \<and> coo_wf coo
      \<and> length perm = length (csr_indices csr)
      \<and> distinct perm
      \<and> list_all (\<lambda>i. 0 \<le> i \<and> i < int (length (csr_indices csr))) perm
      \<and> list_all
           (\<lambda>r. list_all
                   (\<lambda>j. coo_col coo ! nat (perm ! nat j) = r
                        \<and> coo_row coo ! nat (perm ! nat j) = csr_indices csr ! nat j
                        \<and> eid_of (coo_data coo) (perm ! nat j) = eid_of (csr_data csr) j)
                   [csr_indptr csr ! nat r .. csr_indptr csr ! nat (r + 1) - 1])
           [0 .. csr_num_rows csr - 1])"

section \<open>Example data\<close>

text \<open>
  A matrix with three rows and four nonzeros (row 1 is empty), with an id permutation, in
  CSR form and in COO form under the incoming-edges convention (\<open>col\<close> is the aggregation
  target, \<open>row\<close> the neighbour), the COO entries in another order: the CSR position \<open>j\<close> is
  the COO entry \<open>ex_perm ! j\<close>.
\<close>

definition ex_csr :: CSRMatrix where
  "ex_csr = \<lparr>csr_num_rows = 3, csr_num_cols = 3, csr_indptr = [0, 2, 2, 4],
             csr_indices = [1, 2, 0, 1], csr_data = Some [3, 2, 1, 0]\<rparr>"

definition ex_coo :: COOMatrix where
  "ex_coo = \<lparr>coo_num_rows = 3, coo_num_cols = 3, coo_row = [0, 1, 2, 1],
             coo_col = [2, 0, 0, 2], coo_data = Some [1, 3, 2, 0]\<rparr>"

definition ex_perm :: "int list" where
  "ex_perm = [1, 2, 0, 3]"

definition ex_ufeat :: "int NDArray option" where
  "ex_ufeat = Some \<lparr>nd_shape = [3, 2], nd_data = [1, 2, 3, 4, 5, 6]\<rparr>"

definition ex_efeat :: "int NDArray option" where
  "ex_efeat = Some \<lparr>nd_shape = [4, 2], nd_data = [10, 20, 30, 40, 50, 60, 70, 80]\<rparr>"

definition ex_out :: "int NDArray" where
  "ex_out = \<lparr>nd_shape = [3, 2], nd_data = [9, 9, 9, 9, 9, 9]\<rparr>"

definition ex_arg :: "int NDArray option" where
  "ex_arg = Some \<lparr>nd_shape = [3, 2], nd_data = [7, 7, 7, 7, 7, 7]\<rparr>"

definition ex_limits :: "int numeric_limits" where
  "ex_limits = \<lparr>lowest = - 2147483648, highest = 2147483647\<rparr>"

section \<open>Properties\<close>

subsection \<open>Reads, writes and arithmetic\<close>

lemma c_div_nonneg: "0 \<le> a \<Longrightarrow> 0 < b \<Longrightarrow> c_div a b = Inr (a div b)"
  by (simp add: c_div_def sgn_if)

lemma c_mod_nonneg: "0 \<le> a \<Longrightarrow> 0 < b \<Longrightarrow> c_mod a b = Inr (a mod b)"
  by (simp add: c_mod_def sgn_if)

lemma rd_ok: "0 \<le> i \<Longrightarrow> i < int (length xs) \<Longrightarrow> rd xs i = Inr (xs ! nat i)"
  by (simp add: rd_def)

lemma bind_Inr [simp]: "bind (Inr v) f = f v"
  by (simp add: bind_def)

lemma bind_Inl [simp]: "bind (Inl e) f = Inl e"
  by (simp add: bind_def)

subsection \<open>Loops\<close>

lemma for_loop_done: "n \<le> i \<Longrightarrow> for_loop i n body s = Inr s"
  by (simp add: for_loop.simps)

lemma for_loop_step:
  "i < n \<Longrightarrow> body i s = Inr s' \<Longrightarrow> for_loop i n body s = for_loop (i + 1) n body s'"
  by (subst for_loop.simps) simp

text \<open>
  The invariant rule: a loop whose body succeeds and keeps the invariant on every index of
  its range returns, and the invariant holds at the bound.
\<close>

lemma for_loop_rule:
  assumes "I i s" and "i \<le> n"
    and "\<And>j t. i \<le> j \<Longrightarrow> j < n \<Longrightarrow> I j t \<Longrightarrow> \<exists>t'. body j t = Inr t' \<and> I (j + 1) t'"
  shows "\<exists>s'. for_loop i n body s = Inr s' \<and> I n s'"
  using assms
proof (induction i n body s rule: for_loop.induct)
  case (1 i n body s)
  show ?case
  proof (cases "i < n")
    case False
    with "1.prems" have "i = n" by simp
    with "1.prems"(1) show ?thesis by (simp add: for_loop_done)
  next
    case True
    from "1.prems"(3) [OF order_refl True "1.prems"(1)]
    obtain t' where t': "body i s = Inr t'" "I (i + 1) t'" by blast
    have "\<exists>s'. for_loop (i + 1) n body t' = Inr s' \<and> I n s'"
    proof (rule "1.IH" [OF True t'(1) t'(2)])
      show "i + 1 \<le> n" using True by simp
    next
      fix j t assume "i + 1 \<le> j" "j < n" "I j t"
      then show "\<exists>t'. body j t = Inr t' \<and> I (j + 1) t'"
        using "1.prems"(3) [of j t] by simp
    qed
    then show ?thesis using for_loop_step [of i n body s t'] True t'(1) by simp
  qed
qed

lemma c_div_one: "c_div a 1 = Inr a"
  by (simp add: c_div_def sgn_if)

lemma bind_eq_Inr: "(bind m f = Inr y) = (\<exists>x. m = Inr x \<and> f x = Inr y)"
  by (cases m) (simp_all add: bind_def)


lemma for_loop_partial:
  assumes "for_loop i n body s = Inr s'" and "I i s"
    and "\<And>j t t'. i \<le> j \<Longrightarrow> j < n \<Longrightarrow> I j t \<Longrightarrow> body j t = Inr t' \<Longrightarrow> I (j + 1) t'"
  shows "I (max i n) s'"
  using assms
proof (induction i n body s rule: for_loop.induct)
  case (1 i n body s)
  show ?case
  proof (cases "i < n")
    case False
    with "1.prems"(1) have "s' = s" by (simp add: for_loop_done)
    with False "1.prems"(2) show ?thesis by (simp add: max_def)
  next
    case True
    obtain t where t: "body i s = Inr t"
    proof (cases "body i s")
      case (Inl e)
      then have "for_loop i n body s = Inl e" using True by (subst for_loop.simps) simp
      with "1.prems"(1) show ?thesis by simp
    next
      case (Inr t)
      then show ?thesis by (rule that)
    qed
    have run: "for_loop (i + 1) n body t = Inr s'"
      using "1.prems"(1) for_loop_step [of i n body s t] True t by simp
    have It: "I (i + 1) t" using "1.prems"(3) [OF order_refl True "1.prems"(2) t] .
    have "I (max (i + 1) n) s'"
    proof (rule "1.IH" [OF True t run It])
      fix j u u' assume "i + 1 \<le> j" "j < n" "I j u" "body j u = Inr u'"
      then show "I (j + 1) u'" using "1.prems"(3) [of j u u'] by simp
    qed
    then show ?thesis using True by (simp add: max_def)
  qed
qed

subsection \<open>Operator dispatch and the unimplemented paths\<close>

text \<open>
  C8. The operator-name dispatch runs the body with \<open>Add\<close> for "add", \<open>Mul\<close> for "mul",
  \<open>CopyLhs\<close> for "copy_u" and \<open>CopyRhs\<close> for "copy_e"; for every other name the result is the
  fatal error, whatever the body is, so no kernel body runs.
\<close>

theorem SWITCH_OP_dispatch:
  "SWITCH_OP ''add'' body = body Add
   \<and> SWITCH_OP ''mul'' body = body Mul
   \<and> SWITCH_OP ''copy_u'' body = body CopyLhs
   \<and> SWITCH_OP ''copy_e'' body = body CopyRhs
   \<and> (op \<notin> {''add'', ''mul'', ''copy_u'', ''copy_e''} \<longrightarrow>
        SWITCH_OP op body = Inl (Fatal (''Unsupported SpMM binary operator: '' @ op))
        \<and> SWITCH_OP op body = SWITCH_OP op body')"
  by (simp add: SWITCH_OP_def)

theorem SWITCH_OP_dispatch_witness:
  "''sum'' \<notin> {''add'', ''mul'', ''copy_u'', ''copy_e''}
   \<and> SWITCH_OP ''sum'' (\<lambda>op. Inr (use_lhs op)) = Inl (Fatal ''Unsupported SpMM binary operator: sum'')
   \<and> SWITCH_OP ''copy_e'' (\<lambda>op. Inr (use_lhs op)) = Inr False"
  using SWITCH_OP_dispatch [of "\<lambda>op. Inr (use_lhs op)" "''sum''" "\<lambda>op. Inr True"]
  by simp

text \<open>
  C7. Whatever the input, \<open>SpMMBcastSumCsr\<close> and \<open>SpMMBcastCmpCsr\<close> end in the fatal error
  "not implemented" and leave the output and argument tensors as they were passed in.
\<close>

theorem SpMMBcast_not_implemented:
  "SpMMBcastSumCsr op info csr ufeat efeat out = (Inl (Fatal ''not implemented''), out)
   \<and> SpMMBcastCmpCsr op cmp info csr ufeat efeat out argu arge
       = (Inl (Fatal ''not implemented''), out, argu, arge)"
  by (simp add: SpMMBcastSumCsr_def SpMMBcastCmpCsr_def)

subsection \<open>Index resolver\<close>

lemma ravel_step_ok:
  assumes d: "0 \<le> d" "d < int (length out_shape)"
    and len: "length out_stride = length out_shape" "length op_shape = length out_shape"
             "length op_stride = length out_shape"
    and idx: "0 \<le> idx"
    and pos: "0 < out_stride ! nat d" "0 < out_shape ! nat d"
    and bc: "op_shape ! nat d = out_shape ! nat d \<or> op_shape ! nat d = 1"
  shows "ravel_step idx out_shape out_stride op_shape op_stride d acc =
           Inr (acc + min ((idx div out_stride ! nat d) mod out_shape ! nat d)
                          (op_shape ! nat d - 1) * op_stride ! nat d)"
proof -
  let ?i = "(idx div out_stride ! nat d) mod out_shape ! nat d"
  have q: "0 \<le> idx div out_stride ! nat d" using idx pos(1) by (simp add: pos_imp_zdiv_nonneg_iff)
  have i: "0 \<le> ?i" "?i < out_shape ! nat d" using pos(2) by simp_all
  have "ravel_step idx out_shape out_stride op_shape op_stride d acc =
          Inr (if op_shape ! nat d > ?i then acc + ?i * op_stride ! nat d else acc)"
    using d len idx pos q by (simp add: ravel_step_def rd_ok c_div_nonneg c_mod_nonneg)
  also have "(if op_shape ! nat d > ?i then acc + ?i * op_stride ! nat d else acc) =
          acc + min ?i (op_shape ! nat d - 1) * op_stride ! nat d"
    using bc i by (auto simp: min_def)
  finally show ?thesis .
qed

text \<open>Mixed-radix decomposition: the coordinates of a row-major index add up to the index.\<close>

lemma unravel_sum_mod:
  fixes idx :: int
  assumes "0 \<le> idx" "\<forall>s \<in> set sh. 0 < s"
  shows "(\<Sum>d\<leftarrow>[0 ..< length sh].
            (idx div prod_list (drop (Suc d) sh)) mod sh ! d * prod_list (drop (Suc d) sh))
         = idx mod prod_list sh"
  using assms(2)
proof (induction sh)
  case Nil
  then show ?case by simp
next
  case (Cons s rest)
  let ?P = "prod_list rest"
  have IH: "(\<Sum>d\<leftarrow>[0 ..< length rest].
              (idx div prod_list (drop (Suc d) rest)) mod rest ! d * prod_list (drop (Suc d) rest))
            = idx mod ?P"
    using Cons by simp
  have "(\<Sum>d\<leftarrow>[0 ..< length (s # rest)].
            (idx div prod_list (drop (Suc d) (s # rest))) mod (s # rest) ! d
              * prod_list (drop (Suc d) (s # rest)))
        = (idx div ?P) mod s * ?P
          + (\<Sum>d\<leftarrow>[0 ..< length rest].
              (idx div prod_list (drop (Suc d) rest)) mod rest ! d * prod_list (drop (Suc d) rest))"
    by (simp add: upt_conv_Cons map_Suc_upt [symmetric] o_def del: upt_Suc)
  also have "\<dots> = (idx div ?P) mod s * ?P + idx mod ?P" by (simp only: IH)
  also have "\<dots> = idx mod (?P * s)"
    using Cons.prems zmod_zmult2_eq [of s idx ?P] by (simp add: mult.commute)
  finally show ?case by (simp add: mult.commute)
qed

lemma prod_list_pos: "\<forall>s \<in> set sh. (0::int) < s \<Longrightarrow> 0 < prod_list sh"
  by (induction sh) simp_all

lemma spec_ravel_identity:
  assumes rm: "row_major sh st" and idx: "0 \<le> idx" "idx < prod_list sh"
    and pos: "\<forall>s \<in> set sh. 0 < s"
  shows "spec_ravel idx sh st sh st = idx"
proof -
  have st: "\<And>d. d < length sh \<Longrightarrow> st ! d = prod_list (drop (Suc d) sh)"
    using rm by (simp add: row_major_def)
  have "spec_ravel idx sh st sh st =
          (\<Sum>d\<leftarrow>[0 ..< length sh]. (idx div st ! d) mod sh ! d * st ! d)"
    unfolding spec_ravel_def
  proof (rule arg_cong [where f = sum_list], rule map_cong [OF refl])
    fix d assume "d \<in> set [0 ..< length sh]"
    then have "0 < sh ! d" using pos by simp
    then have "(idx div st ! d) mod sh ! d < sh ! d" by simp
    then show "min ((idx div st ! d) mod sh ! d) (sh ! d - 1) * st ! d
                 = (idx div st ! d) mod sh ! d * st ! d" by simp
  qed
  also have "\<dots> = (\<Sum>d\<leftarrow>[0 ..< length sh].
            (idx div prod_list (drop (Suc d) sh)) mod sh ! d * prod_list (drop (Suc d) sh))"
    by (rule arg_cong [where f = sum_list], rule map_cong [OF refl]) (simp add: st)
  also have "\<dots> = idx mod prod_list sh" by (rule unravel_sum_mod [OF idx(1) pos])
  also have "\<dots> = idx" using idx by simp
  finally show ?thesis .
qed


lemma ravel_loop_rhs:
  assumes len: "length out_stride = length out_shape" "length op_shape = length out_shape"
               "length op_stride = length out_shape"
    and idx: "0 \<le> idx"
    and pos: "\<And>d. d < length out_shape \<Longrightarrow> 0 < out_stride ! d \<and> 0 < out_shape ! d"
    and bc: "\<And>d. d < length out_shape \<Longrightarrow> op_shape ! d = out_shape ! d \<or> op_shape ! d = 1"
    and n: "ndim = int (length out_shape)"
  shows "for_loop 0 ndim
           (\<lambda>d (lhs_out, rhs_out).
              bind (ravel_step idx out_shape out_stride op_shape op_stride d rhs_out)
                (\<lambda>rhs_out'. Inr (lhs_out, rhs_out')))
           (l0, r0)
         = Inr (l0, r0 + spec_ravel idx out_shape out_stride op_shape op_stride)"
proof -
  let ?body = "\<lambda>d (lhs_out, rhs_out).
              bind (ravel_step idx out_shape out_stride op_shape op_stride d rhs_out)
                (\<lambda>rhs_out'. Inr (lhs_out, rhs_out'))"
  let ?t = "ravel_term idx out_shape out_stride op_shape op_stride"
  let ?I = "\<lambda>d s. s = (l0, r0 + (\<Sum>e\<leftarrow>[0 ..< nat d]. ?t e))"
  have "\<exists>s'. for_loop 0 ndim ?body (l0, r0) = Inr s' \<and> ?I ndim s'"
  proof (rule for_loop_rule [where I = ?I])
    show "?I 0 (l0, r0)" by simp
    show "0 \<le> ndim" using n by simp
  next
    fix j t assume j: "0 \<le> j" "j < ndim" and t: "?I j t"
    have jn: "nat j < length out_shape" using j n by simp
    have step: "ravel_step idx out_shape out_stride op_shape op_stride j
                  (r0 + (\<Sum>e\<leftarrow>[0 ..< nat j]. ?t e))
                = Inr (r0 + (\<Sum>e\<leftarrow>[0 ..< nat j]. ?t e) + ?t (nat j))"
      unfolding ravel_term_def
      using j n len idx pos [OF jn] bc [OF jn] by (intro ravel_step_ok) simp_all
    have "nat (j + 1) = Suc (nat j)" using j by simp
    then have "(\<Sum>e\<leftarrow>[0 ..< nat (j + 1)]. ?t e) = (\<Sum>e\<leftarrow>[0 ..< nat j]. ?t e) + ?t (nat j)"
      by simp
    then show "\<exists>t'. ?body j t = Inr t' \<and> ?I (j + 1) t'"
      using t step by simp
  qed
  then show ?thesis
    using n by (auto simp: spec_ravel_def ravel_term_def)
qed

lemma ravel_loop_lhs:
  assumes len: "length out_stride = length out_shape" "length op_shape = length out_shape"
               "length op_stride = length out_shape"
    and idx: "0 \<le> idx"
    and pos: "\<And>d. d < length out_shape \<Longrightarrow> 0 < out_stride ! d \<and> 0 < out_shape ! d"
    and bc: "\<And>d. d < length out_shape \<Longrightarrow> op_shape ! d = out_shape ! d \<or> op_shape ! d = 1"
    and n: "ndim = int (length out_shape)"
  shows "for_loop 0 ndim
           (\<lambda>d (lhs_out, rhs_out).
              bind (ravel_step idx out_shape out_stride op_shape op_stride d lhs_out)
                (\<lambda>lhs_out'. Inr (lhs_out', rhs_out)))
           (l0, r0)
         = Inr (l0 + spec_ravel idx out_shape out_stride op_shape op_stride, r0)"
proof -
  let ?body = "\<lambda>d (lhs_out, rhs_out).
              bind (ravel_step idx out_shape out_stride op_shape op_stride d lhs_out)
                (\<lambda>lhs_out'. Inr (lhs_out', rhs_out))"
  let ?t = "ravel_term idx out_shape out_stride op_shape op_stride"
  let ?I = "\<lambda>d s. s = (l0 + (\<Sum>e\<leftarrow>[0 ..< nat d]. ?t e), r0)"
  have "\<exists>s'. for_loop 0 ndim ?body (l0, r0) = Inr s' \<and> ?I ndim s'"
  proof (rule for_loop_rule [where I = ?I])
    show "?I 0 (l0, r0)" by simp
    show "0 \<le> ndim" using n by simp
  next
    fix j t assume j: "0 \<le> j" "j < ndim" and t: "?I j t"
    have jn: "nat j < length out_shape" using j n by simp
    have step: "ravel_step idx out_shape out_stride op_shape op_stride j
                  (l0 + (\<Sum>e\<leftarrow>[0 ..< nat j]. ?t e))
                = Inr (l0 + (\<Sum>e\<leftarrow>[0 ..< nat j]. ?t e) + ?t (nat j))"
      unfolding ravel_term_def
      using j n len idx pos [OF jn] bc [OF jn] by (intro ravel_step_ok) simp_all
    have "nat (j + 1) = Suc (nat j)" using j by simp
    then have "(\<Sum>e\<leftarrow>[0 ..< nat (j + 1)]. ?t e) = (\<Sum>e\<leftarrow>[0 ..< nat j]. ?t e) + ?t (nat j)"
      by simp
    then show "\<exists>t'. ?body j t = Inr t' \<and> ?I (j + 1) t'"
      using t step by simp
  qed
  then show ?thesis
    using n by (auto simp: spec_ravel_def ravel_term_def)
qed

lemma row_major_pos:
  assumes "row_major sh st" "\<forall>s \<in> set sh. (0::int) < s" "d < length sh"
  shows "0 < st ! d \<and> 0 < sh ! d"
proof -
  have "st ! d = prod_list (drop (Suc d) sh)" using assms(1,3) by (simp add: row_major_def)
  moreover have "0 < prod_list (drop (Suc d) sh)"
    using assms(2) by (intro prod_list_pos) (auto dest: in_set_dropD)
  ultimately show ?thesis using assms(2,3) by simp
qed

lemma shape_pos:
  assumes "\<forall>s \<in> set sh. (0::int) \<le> s" "0 < prod_list sh"
  shows "\<forall>s \<in> set sh. 0 < s"
proof
  fix s assume "s \<in> set sh"
  show "0 < s"
  proof (rule ccontr)
    assume "\<not> 0 < s"
    with assms(1) \<open>s \<in> set sh\<close> have "s = 0" by force
    with \<open>s \<in> set sh\<close> have "prod_list sh = 0" by (auto simp: prod_list_zero_iff)
    with assms(2) show False by simp
  qed
qed

text \<open>
  What \<open>UnravelRavel\<close> returns for an in-range flattened index, row-major contiguous output
  strides, operand extents that are the output's or 1, and out-parameters 0 on entry: the
  loop of either branch computes the uniform sum of \<open>min (coord d) (extent d - 1) * stride d\<close>
  for its operand, and the other operand is given \<open>idx\<close>, which is that sum for an operand
  with the output's shape and strides.
\<close>

lemma UnravelRavel_result:
  assumes "1 \<le> ndim" "ndim = int (length out_shape)"
    and "row_major out_shape out_stride"
    and "\<forall>s \<in> set out_shape. 0 \<le> s"
    and "0 \<le> idx" "idx < prod_list out_shape"
    and "bcast_shape out_shape lhs_shape" "length lhs_stride = length out_shape"
    and "bcast_shape out_shape rhs_shape" "length rhs_stride = length out_shape"
  shows "UnravelRavel idx ndim out_shape out_stride lhs_shape lhs_stride rhs_shape rhs_stride (0, 0)
           = Inr (if out_stride ! 0 = lhs_stride ! 0
                  then (idx, spec_ravel idx out_shape out_stride rhs_shape rhs_stride)
                  else (spec_ravel idx out_shape out_stride lhs_shape lhs_stride, idx))
         \<and> spec_ravel idx out_shape out_stride out_shape out_stride = idx"
proof -
  have pos: "\<forall>s \<in> set out_shape. 0 < s" using assms(4,5,6) by (intro shape_pos) simp_all
  have sp: "\<And>d. d < length out_shape \<Longrightarrow> 0 < out_stride ! d \<and> 0 < out_shape ! d"
    using row_major_pos [OF assms(3) pos] .
  have ls: "length out_stride = length out_shape" using assms(3) by (simp add: row_major_def)
  have n0: "0 < length out_shape" using assms(1,2) by (cases out_shape) simp_all
  have r0: "rd out_stride 0 = Inr (out_stride ! 0)" "rd lhs_stride 0 = Inr (lhs_stride ! 0)"
    using n0 ls assms(8) by (simp_all add: rd_def)
  have L: "for_loop 0 ndim
           (\<lambda>d (lhs_out, rhs_out).
              bind (ravel_step idx out_shape out_stride lhs_shape lhs_stride d lhs_out)
                (\<lambda>lhs_out'. Inr (lhs_out', rhs_out)))
           (0, 0)
         = Inr (0 + spec_ravel idx out_shape out_stride lhs_shape lhs_stride, 0)"
    using assms(7) by (intro ravel_loop_lhs ls assms sp) (simp_all add: bcast_shape_def)
  have R: "for_loop 0 ndim
           (\<lambda>d (lhs_out, rhs_out).
              bind (ravel_step idx out_shape out_stride rhs_shape rhs_stride d rhs_out)
                (\<lambda>rhs_out'. Inr (lhs_out, rhs_out')))
           (0, 0)
         = Inr (0, 0 + spec_ravel idx out_shape out_stride rhs_shape rhs_stride)"
    using assms(9) by (intro ravel_loop_rhs ls assms sp) (simp_all add: bcast_shape_def)
  have "UnravelRavel idx ndim out_shape out_stride lhs_shape lhs_stride rhs_shape rhs_stride (0, 0)
           = Inr (if out_stride ! 0 = lhs_stride ! 0
                  then (idx, spec_ravel idx out_shape out_stride rhs_shape rhs_stride)
                  else (spec_ravel idx out_shape out_stride lhs_shape lhs_stride, idx))"
    unfolding UnravelRavel_def by (simp add: r0 L R)
  moreover have "spec_ravel idx out_shape out_stride out_shape out_stride = idx"
    using assms(3,5,6) pos by (rule spec_ravel_identity)
  ultimately show ?thesis by simp
qed

text \<open>
  The inputs of the evaluations below meet the conditions under which the uniform sum is
  expected: contiguous row-major output strides, operand extents that are the output's or 1,
  indices in range.
\<close>

lemma UnravelRavel_inputs_ok:
  "row_major [2, 3] [3, 1] \<and> bcast_shape [2, 3] [1, 3] \<and> bcast_shape [2, 3] [2, 3]
   \<and> bcast_shape [2, 3] [2, 1]
   \<and> (0::int) \<le> 3 \<and> 3 < prod_list [2, 3 :: int] \<and> (0::int) \<le> 5 \<and> 5 < prod_list [2, 3 :: int]"
  by (simp add: row_major_def bcast_shape_def upt_rec)

text \<open>
  C5. The test \<^verbatim>\<open>out_stride[0] == lhs_stride[0]\<close> is to tell a left operand that is not
  broadcast, but an operand broadcast in the leading dimension alone has the leading stride of
  the output too. With output shape \<open>[2, 3]\<close> and a left operand of shape \<open>[1, 3]\<close>, both
  with the contiguous strides \<open>[3, 1]\<close>, the left operand is given \<open>idx = 3\<close>, past its 3
  elements, where the uniform sum is 0; the loop gives this same operand 0 when it is passed on
  the right. When both operands are broadcast (shapes \<open>[2, 1]\<close> and \<open>[1, 3]\<close>) the right one
  is given \<open>idx = 5\<close>, where the uniform sum is 2.
\<close>

theorem UnravelRavel_fast_path_misfire:
  "UnravelRavel 3 2 [2, 3] [3, 1] [1, 3] [3, 1] [2, 3] [3, 1] (0, 0) = Inr (3, 3)
   \<and> spec_ravel 3 [2, 3] [3, 1] [1, 3] [3, 1] = 0 \<and> prod_list [1, 3 :: int] = 3
   \<and> UnravelRavel 3 2 [2, 3] [3, 1] [2, 3] [3, 1] [1, 3] [3, 1] (0, 0) = Inr (3, 0)
   \<and> UnravelRavel 5 2 [2, 3] [3, 1] [2, 1] [1, 1] [1, 3] [3, 1] (0, 0) = Inr (1, 5)
   \<and> spec_ravel 5 [2, 3] [3, 1] [2, 1] [1, 1] = 1
   \<and> spec_ravel 5 [2, 3] [3, 1] [1, 3] [3, 1] = 2"
  by (simp add: UnravelRavel_def ravel_step_def for_loop.simps rd_def c_div_def c_mod_def
      spec_ravel_def upt_rec)

subsection \<open>SDDMM: source recovery, launch configuration, operands\<close>

text \<open>
  C2. The kernel calls \<open>BinarySearchSrc\<close> with the length \<open>N = num_rows\<close>, one less than the
  length of \<open>indptr\<close>, so the search never looks at the last offset. For
  \<open>indptr = [0, 1, 3]\<close> (two rows) the edge position 2 lies in row 1, and the search
  returns row 0; for \<open>indptr = [0, 2]\<close> (one row) position 1 lies in row 0, and the search
  returns \<open>- 1\<close>.
\<close>

theorem BinarySearchSrc_last_row:
  "BinarySearchSrc [0, 1, 3] 2 2 = Inr 0 \<and> row_of [0, 1, 3] 2 2 = [1]
   \<and> BinarySearchSrc [0, 2] 1 1 = Inr (- 1) \<and> row_of [0, 2] 1 1 = [0]"
  by (simp add: BinarySearchSrc_def BinarySearchSrc_loop.simps rd_def row_of_def
      drop_bit_eq_div upto.simps)

lemma ceil_div_bounds:
  fixes a b :: int
  assumes "0 < b"
  shows "a \<le> ((a + b - 1) div b) * b" and "((a + b - 1) div b - 1) * b < a"
proof -
  have e: "(a + b - 1) = ((a + b - 1) div b) * b + (a + b - 1) mod b" by simp
  have m: "0 \<le> (a + b - 1) mod b" "(a + b - 1) mod b < b" using assms by simp_all
  show "a \<le> ((a + b - 1) div b) * b" using e m by linarith
  have "((a + b - 1) div b - 1) * b = ((a + b - 1) div b) * b - b" by (simp add: algebra_simps)
  then show "((a + b - 1) div b - 1) * b < a" using e m by linarith
qed

lemma SDDMMCoo_cfg:
  assumes "SDDMMCoo fnt op coo ufeat vfeat out = Inr (cfg, res)"
  shows "SDDMMCoo_launch fnt (feat_dim (nd_shape out)) (int (length (coo_row coo)))
           = Inr cfg"
  using assms unfolding SDDMMCoo_def Let_def bind_def
  by (auto split: sum.splits)

lemma SDDMMCsr_cfg:
  assumes "SDDMMCsr op csr ufeat vfeat out = Inr (cfg, res)"
  shows "\<exists>ush. shape_of ufeat = Inr ush
           \<and> cfg = SDDMMCsr_launch (int (length (csr_indices csr))) (feat_dim ush)"
  using assms unfolding SDDMMCsr_def Let_def bind_def
  by (auto split: sum.splits)

lemma bcast_lens_len:
  assumes "bcast_lens info = Inr (len, lhs_len, rhs_len)"
  shows "len = feat_dim (info_out_shape info)"
proof -
  define sh where "sh = info_out_shape info"
  define I where "I = (\<lambda>j (t :: int \<times> int \<times> int).
                        fst t = foldl (\<lambda>d i. d * sh ! i) 1 [1 ..< nat j])"
  have run: "for_loop 1 (int (length sh))
       (\<lambda>i (len, lhs_len, rhs_len).
          bind (rd sh i) (\<lambda>o_sh.
          bind (rd (info_lhs_shape info) i) (\<lambda>l_sh.
          bind (rd (info_rhs_shape info) i) (\<lambda>r_sh.
            Inr (len * o_sh, lhs_len * l_sh, rhs_len * r_sh)))))
       (1, 1, 1) = Inr (len, lhs_len, rhs_len)"
    using assms by (simp add: bcast_lens_def sh_def)
  have "I (max 1 (int (length sh))) (len, lhs_len, rhs_len)"
  proof (rule for_loop_partial [OF run])
    show "I 1 (1, 1, 1)" by (simp add: I_def)
  next
    fix j :: int and t t' :: "int \<times> int \<times> int"
    assume j: "1 \<le> j" "j < int (length sh)" and It: "I j t"
      and b: "(case t of (len, lhs_len, rhs_len) \<Rightarrow>
                 bind (rd sh j) (\<lambda>o_sh.
                 bind (rd (info_lhs_shape info) j) (\<lambda>l_sh.
                 bind (rd (info_rhs_shape info) j) (\<lambda>r_sh.
                   Inr (len * o_sh, lhs_len * l_sh, rhs_len * r_sh))))) = Inr t'"
    obtain a b c where t: "t = (a, b, c)" by (cases t)
    have r: "rd sh j = Inr (sh ! nat j)" using j by (simp add: rd_ok)
    from b have "fst t' = a * sh ! nat j"
      unfolding t by (auto simp: r bind_eq_Inr)
    moreover have "[1 ..< nat (j + 1)] = [1 ..< nat j] @ [nat j]"
    proof -
      have "nat (j + 1) = Suc (nat j)" using j by simp
      moreover have "1 \<le> nat j" using j by simp
      ultimately show ?thesis by simp
    qed
    ultimately show "I (j + 1) t'" using It by (simp add: I_def t)
  qed
  then have "len = foldl (\<lambda>d i. d * sh ! i) 1 [1 ..< nat (max 1 (int (length sh)))]"
    by (simp add: I_def)
  moreover have "[1 ..< nat (max 1 (int (length sh)))] = [1 ..< length sh]"
  proof (cases "length sh")
    case 0
    then show ?thesis by simp
  next
    case (Suc m)
    then have "nat (max 1 (int (length sh))) = length sh" by (simp add: max_def)
    then show ?thesis by simp
  qed
  ultimately show ?thesis by (simp add: feat_dim_def sh_def)
qed

lemma FindNumThreads_loop_pow2:
  "(\<exists>j \<le> k. FindNumThreads_loop (2 ^ k) dim = 2 ^ j)
   \<and> (FindNumThreads_loop (2 ^ k) dim = 2 ^ k \<or> dim < 2 * FindNumThreads_loop (2 ^ k) dim)
   \<and> (FindNumThreads_loop (2 ^ k) dim \<le> dim \<or> FindNumThreads_loop (2 ^ k) dim = 1)"
proof (induction k)
  case 0
  have "FindNumThreads_loop 1 dim = 1" by (simp add: FindNumThreads_loop.simps)
  then show ?case by simp
next
  case (Suc k)
  have h: "drop_bit 1 ((2 :: int) ^ Suc k) = 2 ^ k" by (simp add: drop_bit_eq_div)
  have one: "(1 :: int) < 2 ^ Suc k"
  proof -
    have "(1 :: int) \<le> 2 ^ k" by simp
    then have "(1 :: int) < 2 * 2 ^ k" by linarith
    then show ?thesis by simp
  qed
  show ?case
  proof (cases "dim < 2 ^ Suc k")
    case True
    then have e: "FindNumThreads_loop (2 ^ Suc k) dim = FindNumThreads_loop (2 ^ k) dim"
      using one by (subst FindNumThreads_loop.simps) (simp only: h if_True simp_thms)
    from Suc obtain j where j: "j \<le> k" "FindNumThreads_loop (2 ^ k) dim = 2 ^ j" by blast
    have a: "\<exists>j \<le> Suc k. FindNumThreads_loop (2 ^ Suc k) dim = 2 ^ j"
      using j e by (intro exI [of _ j]) simp
    have b: "FindNumThreads_loop (2 ^ Suc k) dim = 2 ^ Suc k
             \<or> dim < 2 * FindNumThreads_loop (2 ^ Suc k) dim"
      using Suc True unfolding e by auto
    have c: "FindNumThreads_loop (2 ^ Suc k) dim \<le> dim \<or> FindNumThreads_loop (2 ^ Suc k) dim = 1"
      using Suc unfolding e by blast
    show ?thesis using a b c by blast
  next
    case False
    then have e: "FindNumThreads_loop (2 ^ Suc k) dim = 2 ^ Suc k"
      by (subst FindNumThreads_loop.simps) (simp only: if_False simp_thms)
    show ?thesis unfolding e using False by auto
  qed
qed

lemma FindNumThreads_1024:
  fixes len :: int
  defines "ntx \<equiv> FindNumThreads len 1024"
  shows "0 < ntx" and "ntx \<le> 1024" and "ntx = 1024 \<or> len < 2 * ntx" and "ntx \<le> len \<or> ntx = 1"
    and "ntx * (1024 div ntx) = 1024"
proof -
  have p: "(1024 :: int) = 2 ^ 10" by simp
  from FindNumThreads_loop_pow2 [of 10 len]
  obtain j where j: "j \<le> 10" "ntx = 2 ^ j"
    and b: "ntx = 1024 \<or> len < 2 * ntx" and c: "ntx \<le> len \<or> ntx = 1"
    unfolding ntx_def FindNumThreads_def p by blast
  show "0 < ntx" using j(2) by simp
  have le: "(2 :: int) ^ j \<le> 2 ^ 10" using j(1) by (intro power_increasing) simp_all
  then show "ntx \<le> 1024" using j(2) by simp
  show "ntx = 1024 \<or> len < 2 * ntx" by (rule b)
  show "ntx \<le> len \<or> ntx = 1" by (rule c)
  have m: "(2 :: int) ^ j * 2 ^ (10 - j) = 2 ^ 10"
    using j(1) by (simp only: power_add [symmetric] le_add_diff_inverse)
  have d: "(2 :: int) ^ (10 - j) = 2 ^ 10 div 2 ^ j"
    by (rule power_diff) (use j(1) in simp_all)
  show "ntx * (1024 div ntx) = 1024"
    unfolding j(2) p d [symmetric] by (rule m)
qed

lemma SDDMMCoo_launch_model:
  assumes "SDDMMCoo_launch FindNumThreads len nnz = Inr cfg" and "0 \<le> nnz"
  shows "launch_by_width len nnz cfg"
proof -
  define ntx where "ntx = FindNumThreads len 1024"
  define nty where "nty = 1024 div ntx"
  note f = FindNumThreads_1024 [of len, folded ntx_def]
  have y: "0 < nty"
  proof (rule ccontr)
    assume "\<not> 0 < nty"
    moreover have "0 \<le> nty" using f(1) by (simp add: nty_def pos_imp_zdiv_nonneg_iff)
    ultimately have "nty = 0" by simp
    with f(5) show False by (simp add: nty_def)
  qed
  have d1: "c_div 1024 ntx = Inr nty" using f(1) by (simp add: c_div_nonneg nty_def)
  have d2: "c_div (len + ntx - 1) ntx = Inr ((len + ntx - 1) div ntx)"
  proof (cases "ntx = 1")
    case True
    then show ?thesis by (simp add: c_div_one)
  next
    case False
    with f(4) have "ntx \<le> len" by simp
    with f(1) show ?thesis by (simp add: c_div_nonneg)
  qed
  have d3: "c_div (nnz + nty - 1) nty = Inr ((nnz + nty - 1) div nty)"
    using y assms(2) by (simp add: c_div_nonneg)
  have "SDDMMCoo_launch FindNumThreads len nnz =
          Inr (((len + ntx - 1) div ntx, (nnz + nty - 1) div nty), (ntx, nty))"
    unfolding SDDMMCoo_launch_def Let_def ntx_def [symmetric] by (simp only: d1 d2 d3 bind_Inr)
  with assms(1) have cfg: "cfg = (((len + ntx - 1) div ntx, (nnz + nty - 1) div nty), (ntx, nty))"
    by simp
  show ?thesis
    unfolding cfg launch_by_width_def
    using f ceil_div_bounds [OF f(1), of len] ceil_div_bounds [OF y, of nnz]
    by (simp add: nty_def)
qed

lemma SDDMMBcastCoo_cfg:
  assumes "SDDMMBcastCoo fnt op info coo ufeat vfeat out = Inr (cfg, res)"
  shows "SDDMMCoo_launch fnt (feat_dim (info_out_shape info)) (int (length (coo_row coo)))
           = Inr cfg"
proof -
  from assms obtain len lhs_len rhs_len where l: "bcast_lens info = Inr (len, lhs_len, rhs_len)"
    and c: "SDDMMCoo_launch fnt len (int (length (coo_row coo))) = Inr cfg"
    unfolding SDDMMBcastCoo_def Let_def by (auto simp: bind_eq_Inr)
  from bcast_lens_len [OF l] c show ?thesis by simp
qed

lemma SDDMMBcastCsr_cfg:
  assumes "SDDMMBcastCsr op info csr ufeat vfeat out = Inr (cfg, res)"
  shows "cfg = SDDMMCsr_launch (int (length (csr_indices csr))) (feat_dim (info_out_shape info))"
proof -
  from assms obtain len lhs_len rhs_len where l: "bcast_lens info = Inr (len, lhs_len, rhs_len)"
    and c: "cfg = SDDMMCsr_launch (int (length (csr_indices csr))) len"
    unfolding SDDMMBcastCsr_def Let_def by (auto simp: bind_eq_Inr)
  from bcast_lens_len [OF l] c show ?thesis by simp
qed

lemmas sddmm_eval = SDDMMCsr_def SDDMMCsrKernel_def SDDMMCoo_def SDDMMCooKernel_def SDDMMCoo_launch_def
  SDDMM_feat_loop_def shape_of_def feat_dim_def
  feat_data_ptr_def reduce_dim_of_def for_loop.simps rd_def wr_def c_div_def BinarySearchSrc_def
  BinarySearchSrc_loop.simps edge_id_def IsNullArray_def bcast_off_def SDDMMCsr_launch_def
  drop_bit_eq_div upt_rec


lemmas sddmm_bcast_eval = SDDMMBcastCoo_def SDDMMBcastCsr_def ctx_of_def bcast_lens_def
  FindNumThreads_def FindNumThreads_loop.simps



text \<open>
  C6. \<open>SDDMMCsr\<close> takes the feature width from \<open>ufeat\<close> whatever the operator uses. With an
  operator that uses the right operand only: an absent \<open>ufeat\<close> is dereferenced; a \<open>ufeat\<close> of
  shape \<open>[0]\<close> makes the width 1, so only the first of the two features is written; a \<open>ufeat\<close>
  of shape \<open>[1, 2]\<close> gives both. \<open>SDDMMCoo\<close>, which takes the width from \<open>out\<close>, gives both with
  \<open>ufeat\<close> absent.
\<close>

theorem SDDMMCsr_reads_unused_operand:
  "SDDMMCsr
      \<lparr>sd_use_lhs = False, sd_use_rhs = True, reduce_last_dim = False,
        sd_Call = (\<lambda>l r n m. deref r)\<rparr>
      \<lparr>csr_num_rows = 1, csr_num_cols = 1, csr_indptr = [0, 1], csr_indices = [0],
        csr_data = None\<rparr>
      None (Some \<lparr>nd_shape = [1, 2], nd_data = [5, 7 :: int]\<rparr>)
      \<lparr>nd_shape = [1, 2], nd_data = [0, 0]\<rparr>
     = Inl NullDeref
   \<and> SDDMMCsr
      \<lparr>sd_use_lhs = False, sd_use_rhs = True, reduce_last_dim = False,
        sd_Call = (\<lambda>l r n m. deref r)\<rparr>
      \<lparr>csr_num_rows = 1, csr_num_cols = 1, csr_indptr = [0, 1], csr_indices = [0],
        csr_data = None\<rparr>
      (Some \<lparr>nd_shape = [0], nd_data = []\<rparr>) (Some \<lparr>nd_shape = [1, 2], nd_data = [5, 7 :: int]\<rparr>)
      \<lparr>nd_shape = [1, 2], nd_data = [0, 0]\<rparr>
     = Inr (((1, 1), (1, 1)), [5, 0])
   \<and> SDDMMCsr
      \<lparr>sd_use_lhs = False, sd_use_rhs = True, reduce_last_dim = False,
        sd_Call = (\<lambda>l r n m. deref r)\<rparr>
      \<lparr>csr_num_rows = 1, csr_num_cols = 1, csr_indptr = [0, 1], csr_indices = [0],
        csr_data = None\<rparr>
      (Some \<lparr>nd_shape = [1, 2], nd_data = [9, 9]\<rparr>) (Some \<lparr>nd_shape = [1, 2], nd_data = [5, 7 :: int]\<rparr>)
      \<lparr>nd_shape = [1, 2], nd_data = [0, 0]\<rparr>
     = Inr (((1, 1), (1, 2)), [5, 7])
   \<and> SDDMMCoo (\<lambda>dim mx. max 1 (min dim mx))
      \<lparr>sd_use_lhs = False, sd_use_rhs = True, reduce_last_dim = False,
        sd_Call = (\<lambda>l r n m. deref r)\<rparr>
      \<lparr>coo_num_rows = 1, coo_num_cols = 1, coo_row = [0], coo_col = [0], coo_data = None\<rparr>
      None (Some \<lparr>nd_shape = [1, 2], nd_data = [5, 7 :: int]\<rparr>)
      \<lparr>nd_shape = [1, 2], nd_data = [0, 0]\<rparr>
     = Inr (((1, 1), (2, 512)), [5, 7])"
  by (simp add: sddmm_eval)

subsection \<open>SpMM: buffers, operands and candidates\<close>

lemma wr_ok: "0 \<le> i \<Longrightarrow> i < int (length xs) \<Longrightarrow> wr xs i v = Inr (xs[nat i := v])"
  by (simp add: wr_def)

lemma flat_bounds:
  fixes c k dim n :: int
  assumes "0 \<le> c" "0 \<le> k" "k < dim" "(c + 1) * dim \<le> n"
  shows "0 \<le> c * dim + k" and "c * dim + k < n"
proof -
  have "0 \<le> c * dim" using assms by (intro mult_nonneg_nonneg) simp_all
  then show "0 \<le> c * dim + k" using assms(2) by simp
  show "c * dim + k < n" using assms(3,4) by (simp add: algebra_simps)
qed

lemma flat_div_mod:
  fixes r k dim :: int
  assumes "0 \<le> k" "k < dim"
  shows "(r * dim + k) div dim = r" and "(r * dim + k) mod dim = k"
  using assms by simp_all

lemma flat_split:
  fixes p dim :: int
  assumes "0 < dim"
  shows "(p div dim) * dim \<le> p \<and> p < (p div dim) * dim + dim \<and> p - (p div dim) * dim = p mod dim"
proof -
  have "p = (p div dim) * dim + p mod dim" by simp
  moreover have "0 \<le> p mod dim" "p mod dim < dim" using assms by simp_all
  ultimately show ?thesis by linarith
qed

lemma flat_row_unique:
  fixes p r dim :: int
  assumes "r * dim \<le> p" "p < r * dim + dim"
  shows "p div dim = r \<and> p mod dim = p - r * dim"
proof -
  have d: "0 < dim" using assms by linarith
  have "p = r * dim + (p - r * dim)" by simp
  moreover have "0 \<le> p - r * dim" "p - r * dim < dim" using assms by simp_all
  ultimately have "p div dim = (r * dim + (p - r * dim)) div dim"
    and "p mod dim = (r * dim + (p - r * dim)) mod dim" by simp_all
  then show ?thesis using flat_div_mod [of "p - r * dim" dim r] assms by simp
qed

lemma filled_refl: "filled xs0 xs0 lo lo f"
  by (auto simp: filled_def)

lemma filled_step:
  assumes "filled xs0 xs lo hi f" "lo \<le> hi" "0 \<le> hi" "hi < int (length xs0)" "v = f hi"
  shows "wr xs hi v = Inr (xs[nat hi := v])" and "filled xs0 (xs[nat hi := v]) lo (hi + 1) f"
proof -
  have len: "length xs = length xs0" using assms(1) by (simp add: filled_def)
  show "wr xs hi v = Inr (xs[nat hi := v])" using assms(3,4) len by (simp add: wr_ok)
  show "filled xs0 (xs[nat hi := v]) lo (hi + 1) f"
    unfolding filled_def
  proof (intro conjI allI impI)
    show "length (xs[nat hi := v]) = length xs0" using len by simp
  next
    fix p assume p: "0 \<le> p \<and> p < int (length xs0)"
    show "xs[nat hi := v] ! nat p = (if lo \<le> p \<and> p < hi + 1 then f p else xs0 ! nat p)"
    proof (cases "p = hi")
      case True
      then show ?thesis using assms(2,3,4,5) len by simp
    next
      case False
      then have "nat p \<noteq> nat hi" using p assms(3) by (simp add: eq_nat_nat_iff)
      then have "xs[nat hi := v] ! nat p = xs ! nat p" by simp
      also have "\<dots> = (if lo \<le> p \<and> p < hi then f p else xs0 ! nat p)"
        using assms(1) p by (simp add: filled_def)
      also have "\<dots> = (if lo \<le> p \<and> p < hi + 1 then f p else xs0 ! nat p)"
        using False by auto
      finally show ?thesis .
    qed
  qed
qed

lemma edge_id_ok:
  assumes "0 \<le> j" "j < int n" "case d of None \<Rightarrow> True | Some es \<Rightarrow> length es = n"
  shows "edge_id d j = Inr (eid_of d j)"
  using assms by (cases d) (simp_all add: edge_id_def IsNullArray_def edges_ptr_def eid_of_def rd_def)

lemma operand_ptr_ok:
  assumes "operand_ok used t dim ids"
  shows "operand_ptr used t = Inr (if used then Ptr (feat t) 0 else nullptr)"
  using assms
  by (cases t) (auto simp: operand_ok_def operand_ptr_def data_ptr_def feat_def split: if_splits)

lemma operand_ok_nth:
  assumes "operand_ok True t dim ids" "i \<in> set ids" "0 \<le> k" "k < dim"
  shows "0 \<le> i * dim + k \<and> i * dim + k < int (length (feat t))"
proof -
  from assms(1) obtain a where a: "t = Some a"
    and all: "list_all (\<lambda>i. 0 \<le> i \<and> (i + 1) * dim \<le> int (length (nd_data a))) ids"
    by (cases t) (auto simp: operand_ok_def)
  from all assms(2) have "0 \<le> i" "(i + 1) * dim \<le> int (length (nd_data a))"
    by (simp_all add: list_all_iff)
  then show ?thesis using flat_bounds [of i k dim "int (length (nd_data a))"] assms(3,4) a
    by (simp add: feat_def)
qed

lemma SpMM_val_ok:
  fixes xs ws :: "('a :: {plus, times}) list"
  assumes "use_lhs op \<Longrightarrow> 0 \<le> cid * dim + k \<and> cid * dim + k < int (length xs)"
    and "use_rhs op \<Longrightarrow> 0 \<le> eid * dim + k \<and> eid * dim + k < int (length ws)"
  shows "SpMM_val op (if use_lhs op then Ptr xs 0 else nullptr)
           (if use_rhs op then Ptr ws 0 else nullptr) dim cid eid k
         = Inr (combine op (xs ! nat (cid * dim + k)) (ws ! nat (eid * dim + k)))"
  using assms by (cases op) (simp_all add: SpMM_val_def rd_def bind_def)

lemma csr_nnz_bounds:
  assumes wf: "csr_wf csr" and r: "0 \<le> r" "r < csr_num_rows csr"
  shows "0 \<le> csr_indptr csr ! nat r"
    and "csr_indptr csr ! nat r \<le> csr_indptr csr ! nat (r + 1)"
    and "csr_indptr csr ! nat (r + 1) \<le> int (length (csr_indices csr))"
    and "rd (csr_indptr csr) r = Inr (csr_indptr csr ! nat r)"
    and "rd (csr_indptr csr) (r + 1) = Inr (csr_indptr csr ! nat (r + 1))"
proof -
  let ?ip = "csr_indptr csr"
  have len: "int (length ?ip) = csr_num_rows csr + 1" and srt: "sorted ?ip"
    and z: "?ip ! 0 = 0" and last: "?ip ! nat (csr_num_rows csr) = int (length (csr_indices csr))"
    using wf by (simp_all add: csr_wf_def)
  have lt: "nat r < length ?ip" "nat (r + 1) < length ?ip" "nat (csr_num_rows csr) < length ?ip"
    using len r by simp_all
  have "?ip ! 0 \<le> ?ip ! nat r" using srt lt(1) by (intro sorted_nth_mono) simp_all
  then show "0 \<le> ?ip ! nat r" using z by simp
  show "?ip ! nat r \<le> ?ip ! nat (r + 1)" using srt lt(2) r by (intro sorted_nth_mono) simp_all
  have "?ip ! nat (r + 1) \<le> ?ip ! nat (csr_num_rows csr)"
    using srt lt(3) r by (intro sorted_nth_mono) simp_all
  then show "?ip ! nat (r + 1) \<le> int (length (csr_indices csr))" using last by simp
  show "rd ?ip r = Inr (?ip ! nat r)" using r len by (simp add: rd_def)
  show "rd ?ip (r + 1) = Inr (?ip ! nat (r + 1))" using r len by (simp add: rd_def)
qed

lemma edge_ids_nth:
  assumes "0 \<le> j" "j < int n" "case d of None \<Rightarrow> True | Some es \<Rightarrow> length es = n"
  shows "eid_of d j \<in> set (edge_ids d n)"
  using assms by (cases d) (auto simp: eid_of_def edge_ids_def intro!: image_eqI [where x = "nat j"])

lemma csr_candidate_ok:
  fixes ufeat efeat :: "('a :: {plus, times}) NDArray option"
  assumes wf: "csr_wf csr"
    and lhs: "operand_ok (use_lhs op) ufeat dim (csr_indices csr)"
    and rhs: "operand_ok (use_rhs op) efeat dim (edge_ids (csr_data csr) (length (csr_indices csr)))"
    and j: "0 \<le> j" "j < int (length (csr_indices csr))" and k: "0 \<le> k" "k < dim"
  shows "csr_candidate op (if use_lhs op then Ptr (feat ufeat) 0 else nullptr)
           (if use_rhs op then Ptr (feat efeat) 0 else nullptr) dim csr k j
         = Inr (csr_indices csr ! nat j, eid_of (csr_data csr) j,
                csr_val op csr ufeat efeat dim k j)"
proof -
  have d: "case csr_data csr of None \<Rightarrow> True | Some es \<Rightarrow> length es = length (csr_indices csr)"
    using wf by (simp add: csr_wf_def)
  have r1: "rd (csr_indices csr) j = Inr (csr_indices csr ! nat j)" using j by (simp add: rd_def)
  have r2: "edge_id (csr_data csr) j = Inr (eid_of (csr_data csr) j)"
    using j d by (rule edge_id_ok)
  have v: "SpMM_val op (if use_lhs op then Ptr (feat ufeat) 0 else nullptr)
           (if use_rhs op then Ptr (feat efeat) 0 else nullptr) dim
           (csr_indices csr ! nat j) (eid_of (csr_data csr) j) k
         = Inr (csr_val op csr ufeat efeat dim k j)"
    unfolding csr_val_def
  proof (rule SpMM_val_ok)
    assume u: "use_lhs op"
    have "csr_indices csr ! nat j \<in> set (csr_indices csr)" using j by simp
    then show "0 \<le> csr_indices csr ! nat j * dim + k
        \<and> csr_indices csr ! nat j * dim + k < int (length (feat ufeat))"
      using lhs u k by (intro operand_ok_nth [where ids = "csr_indices csr"]) simp_all
  next
    assume u: "use_rhs op"
    have "eid_of (csr_data csr) j \<in> set (edge_ids (csr_data csr) (length (csr_indices csr)))"
      using j d by (rule edge_ids_nth)
    then show "0 \<le> eid_of (csr_data csr) j * dim + k
        \<and> eid_of (csr_data csr) j * dim + k < int (length (feat efeat))"
      using rhs u k
      by (intro operand_ok_nth [where ids = "edge_ids (csr_data csr) (length (csr_indices csr))"])
         simp_all
  qed
  show ?thesis by (simp add: csr_candidate_def r1 r2 v)
qed

lemmas ex_defs = ex_csr_def ex_coo_def ex_perm_def ex_ufeat_def ex_efeat_def ex_out_def
  ex_arg_def ex_limits_def

lemmas spmm_eval = SpMMSumCsr_def SpMMSumCoo_def SpMMCmpCsr_def SpMMCmpCoo_def csr_candidate_def
  SpMM_val_def operand_ptr_def data_ptr_def arg_ptr_def arg_write_def memset_zero_def Numel_def
  feat_dim_def edge_id_def edges_ptr_def IsNullArray_def for_loop.simps rd_def wr_def upt_rec

subsection \<open>SpMM: an operand the operator does not use\<close>

text \<open>
  The four SpMM kernels take the data pointer of a feature tensor only under the operator's
  usage flag and read nothing else of it, so their result does not depend on an unused
  operand, which may be absent.
\<close>

lemma SpMM_unused_operand:
  fixes ufeat efeat :: "('a :: {semiring_0, linorder}) NDArray option"
  shows "\<not> use_lhs op \<Longrightarrow> SpMMSumCsr op csr ufeat efeat out = SpMMSumCsr op csr None efeat out"
    and "\<not> use_rhs op \<Longrightarrow> SpMMSumCsr op csr ufeat efeat out = SpMMSumCsr op csr ufeat None out"
    and "\<not> use_lhs op \<Longrightarrow> SpMMSumCoo op coo ufeat efeat out = SpMMSumCoo op coo None efeat out"
    and "\<not> use_rhs op \<Longrightarrow> SpMMSumCoo op coo ufeat efeat out = SpMMSumCoo op coo ufeat None out"
    and "\<not> use_lhs op \<Longrightarrow> SpMMCmpCsr L op cmp csr ufeat efeat out argu arge
                              = SpMMCmpCsr L op cmp csr None efeat out argu arge"
    and "\<not> use_rhs op \<Longrightarrow> SpMMCmpCsr L op cmp csr ufeat efeat out argu arge
                              = SpMMCmpCsr L op cmp csr ufeat None out argu arge"
    and "\<not> use_lhs op \<Longrightarrow> SpMMCmpCoo L op cmp coo ufeat efeat out argu arge
                              = SpMMCmpCoo L op cmp coo None efeat out argu arge"
    and "\<not> use_rhs op \<Longrightarrow> SpMMCmpCoo L op cmp coo ufeat efeat out argu arge
                              = SpMMCmpCoo L op cmp coo ufeat None out argu arge"
  by (simp_all add: SpMMSumCsr_def SpMMSumCoo_def SpMMCmpCsr_def SpMMCmpCoo_def operand_ptr_def)

subsection \<open>Sum reduction over CSR\<close>

lemma int_ivl_Suc:
  fixes lo j :: int
  assumes "lo \<le> j"
  shows "{lo ..< j + 1} = insert j {lo ..< j}"
  using assms by auto

lemma sum_int_ivl_Suc:
  fixes lo j :: int and v :: "int \<Rightarrow> 'a :: comm_monoid_add"
  assumes "lo \<le> j"
  shows "sum v {lo ..< j + 1} = sum v {lo ..< j} + v j"
  by (subst int_ivl_Suc [OF assms]) (simp add: add.commute)

lemma sum_accum_loop:
  fixes v :: "int \<Rightarrow> 'a :: comm_monoid_add"
  assumes "lo \<le> hi"
    and "\<And>j. lo \<le> j \<Longrightarrow> j < hi \<Longrightarrow> cand j = Inr (c j, e j, v j)"
  shows "for_loop lo hi (\<lambda>j accum. bind (cand j) (\<lambda>(cid, eid, val). Inr (accum + val))) a0
         = Inr (a0 + sum v {lo ..< hi})"
proof -
  let ?body = "\<lambda>j accum. bind (cand j) (\<lambda>(cid, eid, val). Inr (accum + val))"
  let ?I = "\<lambda>j a. a = a0 + sum v {lo ..< j}"
  have "\<exists>s'. for_loop lo hi ?body a0 = Inr s' \<and> ?I hi s'"
  proof (rule for_loop_rule [where I = ?I])
    show "?I lo a0" by simp
    show "lo \<le> hi" by (rule assms(1))
  next
    fix j t assume j: "lo \<le> j" "j < hi" and t: "?I j t"
    have "sum v {lo ..< j + 1} = sum v {lo ..< j} + v j"
      using j(1) by (rule sum_int_ivl_Suc)
    then show "\<exists>t'. ?body j t = Inr t' \<and> ?I (j + 1) t'"
      using t assms(2) [OF j] by (simp add: add.assoc)
  qed
  then show ?thesis by auto
qed

lemma SpMMSumCsr_filled:
  fixes ufeat efeat :: "('a :: semiring_0) NDArray option"
  assumes wf: "csr_wf csr"
    and lhs: "operand_ok (use_lhs op) ufeat (feat_dim (nd_shape out)) (csr_indices csr)"
    and rhs: "operand_ok (use_rhs op) efeat (feat_dim (nd_shape out))
                (edge_ids (csr_data csr) (length (csr_indices csr)))"
    and dim: "0 \<le> feat_dim (nd_shape out)"
    and out: "csr_num_rows csr * feat_dim (nd_shape out) \<le> int (length (nd_data out))"
  shows "\<exists>res. SpMMSumCsr op csr ufeat efeat out = Inr res
           \<and> filled (nd_data out) res 0 (csr_num_rows csr * feat_dim (nd_shape out))
               (\<lambda>p. csr_sum op csr ufeat efeat (feat_dim (nd_shape out))
                      (p div feat_dim (nd_shape out)) (p mod feat_dim (nd_shape out)))"
proof -
  define dim where "dim = feat_dim (nd_shape out)"
  define X where "X = (if use_lhs op then Ptr (feat ufeat) 0 else nullptr)"
  define W where "W = (if use_rhs op then Ptr (feat efeat) 0 else nullptr)"
  define F where "F = (\<lambda>p. csr_sum op csr ufeat efeat dim (p div dim) (p mod dim))"
  define n where "n = csr_num_rows csr"
  let ?ip = "csr_indptr csr"
  let ?cell = "\<lambda>rid k. for_loop (?ip ! nat rid) (?ip ! nat (rid + 1))
                       (\<lambda>j accum.
                          bind (csr_candidate op X W dim csr k j) (\<lambda>(cid, eid, val).
                            Inr (accum + val)))
                       0"
  let ?krow = "\<lambda>rid. for_loop 0 dim
            (\<lambda>k obuf. bind (?cell rid k) (\<lambda>accum. wr obuf (rid * dim + k) accum))"
  let ?body = "\<lambda>rid obuf.
          bind (rd ?ip rid) (\<lambda>row_start.
          bind (rd ?ip (rid + 1)) (\<lambda>row_end.
          for_loop 0 dim
            (\<lambda>k obuf.
               bind (for_loop row_start row_end
                       (\<lambda>j accum.
                          bind (csr_candidate op X W dim csr k j) (\<lambda>(cid, eid, val).
                            Inr (accum + val)))
                       0)
                 (\<lambda>accum. wr obuf (rid * dim + k) accum))
            obuf))"
  have n0: "0 \<le> n" using wf by (simp add: n_def csr_wf_def)
  have d0: "0 \<le> dim" using dim by (simp add: dim_def)
  have len: "n * dim \<le> int (length (nd_data out))" using out by (simp add: n_def dim_def)
  have cell: "?cell r k = Inr (csr_sum op csr ufeat efeat dim r k)"
    if r: "0 \<le> r" "r < n" and k: "0 \<le> k" "k < dim" for r k
  proof -
    note b = csr_nnz_bounds [OF wf r(1) r(2) [unfolded n_def]]
    have "?cell r k = Inr (0 + sum (csr_val op csr ufeat efeat dim k) {?ip ! nat r ..< ?ip ! nat (r + 1)})"
    proof (rule sum_accum_loop [where c = "\<lambda>j. csr_indices csr ! nat j"
          and e = "eid_of (csr_data csr)"])
      show "?ip ! nat r \<le> ?ip ! nat (r + 1)" by (rule b(2))
    next
      fix j assume j: "?ip ! nat r \<le> j" "j < ?ip ! nat (r + 1)"
      have "0 \<le> j" "j < int (length (csr_indices csr))" using j b(1,3) by simp_all
      then show "csr_candidate op X W dim csr k j
          = Inr (csr_indices csr ! nat j, eid_of (csr_data csr) j, csr_val op csr ufeat efeat dim k j)"
        unfolding X_def W_def
        using wf lhs rhs k by (intro csr_candidate_ok) (simp_all add: dim_def)
    qed
    then show ?thesis by (simp add: csr_sum_def)
  qed
  have row: "\<exists>t'. ?body r t = Inr t' \<and> filled (nd_data out) t' 0 ((r + 1) * dim) F"
    if r: "0 \<le> r" "r < n" and t: "filled (nd_data out) t 0 (r * dim) F" for r t
  proof -
    note b = csr_nnz_bounds [OF wf r(1) r(2) [unfolded n_def]]
    have rn: "(r + 1) * dim \<le> n * dim" using r d0 by (intro mult_right_mono) simp_all
    have "\<exists>t'. ?krow r t = Inr t' \<and> filled (nd_data out) t' 0 (r * dim + dim) F"
    proof (rule for_loop_rule [where I = "\<lambda>k s. filled (nd_data out) s 0 (r * dim + k) F"])
      show "filled (nd_data out) t 0 (r * dim + 0) F" using t by simp
      show "0 \<le> dim" by (rule d0)
    next
      fix k s assume k: "0 \<le> k" "k < dim" and s: "filled (nd_data out) s 0 (r * dim + k) F"
      have p: "0 \<le> r * dim + k" "r * dim + k < int (length (nd_data out))"
        using flat_bounds [of r k dim "int (length (nd_data out))"] r k rn len by simp_all
      have Fp: "csr_sum op csr ufeat efeat dim r k = F (r * dim + k)"
        using flat_div_mod [OF k, of r] by (simp add: F_def)
      note st = filled_step [OF s p(1) p(1) p(2) Fp]
      show "\<exists>t'. bind (?cell r k) (\<lambda>accum. wr s (r * dim + k) accum) = Inr t'
              \<and> filled (nd_data out) t' 0 (r * dim + (k + 1)) F"
        using st by (simp add: cell [OF r k] add.assoc)
    qed
    moreover have "r * dim + dim = (r + 1) * dim" by (simp add: algebra_simps)
    ultimately show ?thesis by (simp add: b(4,5))
  qed
  have "\<exists>res. for_loop 0 n ?body (nd_data out) = Inr res \<and> filled (nd_data out) res 0 (n * dim) F"
  proof (rule for_loop_rule [where I = "\<lambda>r s. filled (nd_data out) s 0 (r * dim) F"])
    show "filled (nd_data out) (nd_data out) 0 (0 * dim) F" using filled_refl [of _ 0] by simp
    show "0 \<le> n" by (rule n0)
  next
    fix r t assume "0 \<le> r" "r < n" "filled (nd_data out) t 0 (r * dim) F"
    then show "\<exists>t'. ?body r t = Inr t' \<and> filled (nd_data out) t' 0 ((r + 1) * dim) F"
      by (rule row)
  qed
  moreover have "SpMMSumCsr op csr ufeat efeat out = for_loop 0 n ?body (nd_data out)"
    unfolding SpMMSumCsr_def operand_ptr_ok [OF lhs] operand_ptr_ok [OF rhs]
    by (simp add: Let_def X_def W_def dim_def n_def)
  ultimately show ?thesis by (simp add: F_def dim_def n_def)
qed

text \<open>
  C1. For a CSR matrix whose \<open>indptr\<close> is non-decreasing and spans the indices array, tensors
  that hold the rows the matrix indexes, and any of the four value operators, \<open>SpMMSumCsr\<close>
  returns, and \<open>out[r, k]\<close> is the sum over the positions \<open>j\<close> of row \<open>r\<close> of
  \<open>combine (ufeat[indices[j] * dim + k]) (efeat[eid * dim + k])\<close>, where \<open>eid\<close> is \<open>data[j]\<close>
  when the permutation is present and \<open>j\<close> otherwise; a row with an empty range gets 0.
\<close>

theorem SpMMSumCsr_row_sums:
  fixes ufeat efeat :: "('a :: semiring_0) NDArray option"
  assumes wf: "csr_wf csr"
    and lhs: "operand_ok (use_lhs op) ufeat (feat_dim (nd_shape out)) (csr_indices csr)"
    and rhs: "operand_ok (use_rhs op) efeat (feat_dim (nd_shape out))
                (edge_ids (csr_data csr) (length (csr_indices csr)))"
    and dim: "0 \<le> feat_dim (nd_shape out)"
    and out: "csr_num_rows csr * feat_dim (nd_shape out) \<le> int (length (nd_data out))"
  shows "\<exists>res. SpMMSumCsr op csr ufeat efeat out = Inr res
           \<and> length res = length (nd_data out)
           \<and> (\<forall>r k. 0 \<le> r \<and> r < csr_num_rows csr \<and> 0 \<le> k \<and> k < feat_dim (nd_shape out) \<longrightarrow>
                 res ! nat (r * feat_dim (nd_shape out) + k)
                   = (\<Sum>j = csr_indptr csr ! nat r ..< csr_indptr csr ! nat (r + 1).
                        combine op
                          (feat ufeat ! nat (csr_indices csr ! nat j * feat_dim (nd_shape out) + k))
                          (feat efeat ! nat ((case csr_data csr of None \<Rightarrow> j | Some es \<Rightarrow> es ! nat j)
                                               * feat_dim (nd_shape out) + k)))
                 \<and> (csr_indptr csr ! nat r = csr_indptr csr ! nat (r + 1) \<longrightarrow>
                       res ! nat (r * feat_dim (nd_shape out) + k) = 0))"
proof -
  define dim where "dim = feat_dim (nd_shape out)"
  from SpMMSumCsr_filled [OF assms]
  obtain res where res: "SpMMSumCsr op csr ufeat efeat out = Inr res"
    and fl: "filled (nd_data out) res 0 (csr_num_rows csr * dim)
               (\<lambda>p. csr_sum op csr ufeat efeat dim (p div dim) (p mod dim))"
    unfolding dim_def by blast
  have cellv: "res ! nat (r * dim + k) = csr_sum op csr ufeat efeat dim r k"
    if r: "0 \<le> r" "r < csr_num_rows csr" and k: "0 \<le> k" "k < dim" for r k
  proof -
    have rn: "(r + 1) * dim \<le> csr_num_rows csr * dim"
      using r k by (intro mult_right_mono) simp_all
    have p: "0 \<le> r * dim + k" "r * dim + k < csr_num_rows csr * dim"
      using flat_bounds [of r k dim "csr_num_rows csr * dim"] r k rn by simp_all
    then have "r * dim + k < int (length (nd_data out))" using out by (simp add: dim_def)
    then show ?thesis
      using fl p flat_div_mod [OF k, of r] by (simp add: filled_def)
  qed
  show ?thesis
  proof (intro exI [of _ res] conjI allI impI)
    show "SpMMSumCsr op csr ufeat efeat out = Inr res" by (rule res)
    show "length res = length (nd_data out)" using fl by (simp add: filled_def)
  next
    fix r k assume a: "0 \<le> r \<and> r < csr_num_rows csr \<and> 0 \<le> k \<and> k < feat_dim (nd_shape out)"
    then show "res ! nat (r * feat_dim (nd_shape out) + k)
                   = (\<Sum>j = csr_indptr csr ! nat r ..< csr_indptr csr ! nat (r + 1).
                        combine op
                          (feat ufeat ! nat (csr_indices csr ! nat j * feat_dim (nd_shape out) + k))
                          (feat efeat ! nat ((case csr_data csr of None \<Rightarrow> j | Some es \<Rightarrow> es ! nat j)
                                               * feat_dim (nd_shape out) + k)))"
      using cellv [of r k] by (simp add: dim_def csr_sum_def csr_val_def eid_of_def)
  next
    fix r k assume a: "0 \<le> r \<and> r < csr_num_rows csr \<and> 0 \<le> k \<and> k < feat_dim (nd_shape out)"
      and e: "csr_indptr csr ! nat r = csr_indptr csr ! nat (r + 1)"
    show "res ! nat (r * feat_dim (nd_shape out) + k) = 0"
      using cellv [of r k] a e by (simp add: dim_def csr_sum_def)
  qed
qed

theorem SpMMSumCsr_row_sums_witness:
  "csr_wf ex_csr
   \<and> operand_ok (use_lhs Add) ex_ufeat (feat_dim (nd_shape ex_out)) (csr_indices ex_csr)
   \<and> operand_ok (use_rhs Add) ex_efeat (feat_dim (nd_shape ex_out))
       (edge_ids (csr_data ex_csr) (length (csr_indices ex_csr)))
   \<and> 0 \<le> feat_dim (nd_shape ex_out)
   \<and> csr_num_rows ex_csr * feat_dim (nd_shape ex_out) \<le> int (length (nd_data ex_out))
   \<and> SpMMSumCsr Add ex_csr ex_ufeat ex_efeat ex_out = Inr [128, 150, 0, 0, 44, 66]"
proof -
  have h1: "csr_wf ex_csr" by (simp add: csr_wf_def ex_defs)
  have d: "feat_dim (nd_shape ex_out) = 2" by (simp add: feat_dim_def ex_defs upt_rec)
  have h2: "operand_ok (use_lhs Add) ex_ufeat (feat_dim (nd_shape ex_out)) (csr_indices ex_csr)"
    unfolding d by (simp add: operand_ok_def ex_defs)
  have h3: "operand_ok (use_rhs Add) ex_efeat (feat_dim (nd_shape ex_out))
       (edge_ids (csr_data ex_csr) (length (csr_indices ex_csr)))"
    unfolding d by (simp add: operand_ok_def edge_ids_def ex_defs)
  have h4: "0 \<le> feat_dim (nd_shape ex_out)" unfolding d by simp
  have h5: "csr_num_rows ex_csr * feat_dim (nd_shape ex_out) \<le> int (length (nd_data ex_out))"
    unfolding d by (simp add: ex_defs)
  have ev: "SpMMSumCsr Add ex_csr ex_ufeat ex_efeat ex_out = Inr [128, 150, 0, 0, 44, 66]"
    by (simp add: spmm_eval ex_defs)
  from SpMMSumCsr_row_sums [OF h1 h2 h3 h4 h5] ev h1 h2 h3 h4 h5 show ?thesis by simp
qed

subsection \<open>Compare reduction over CSR\<close>

lemma for_loop_fold:
  assumes "\<And>j s. lo \<le> j \<Longrightarrow> j < hi \<Longrightarrow> body j s = Inr (g j s)"
  shows "for_loop lo hi body s = Inr (fold g [lo .. hi - 1] s)"
proof (cases "lo \<le> hi")
  case False
  then show ?thesis by (simp add: for_loop_done)
next
  case True
  have "\<exists>s'. for_loop lo hi body s = Inr s' \<and> s' = fold g [lo .. hi - 1] s"
  proof (rule for_loop_rule [where I = "\<lambda>j t. t = fold g [lo .. j - 1] s"])
    show "s = fold g [lo .. lo - 1] s" by simp
    show "lo \<le> hi" by (rule True)
  next
    fix j t assume j: "lo \<le> j" "j < hi" and t: "t = fold g [lo .. j - 1] s"
    have "[lo .. j + 1 - 1] = [lo .. j - 1] @ [j]" using j(1) by (simp add: upto_rec2)
    then show "\<exists>t'. body j t = Inr t' \<and> t' = fold g [lo .. j + 1 - 1] s"
      using t assms [OF j] by simp
  qed
  then show ?thesis by simp
qed

lemma arg_ptr_ok:
  assumes "arg_ok used t n"
  shows "arg_ptr used t = Inr (if used then Some (feat t) else None)"
  using assms by (cases t) (auto simp: arg_ok_def arg_ptr_def feat_def split: if_splits)

lemma arg_ok_len: "arg_ok True t n \<Longrightarrow> n \<le> int (length (feat t))"
  by (cases t) (auto simp: arg_ok_def feat_def)

lemma opt_filled_init: "opt_filled used xs0 (if used then Some xs0 else None) lo lo f"
  by (simp add: opt_filled_def filled_refl)

lemma arg_write_step:
  assumes "opt_filled used xs0 p lo hi f" "lo \<le> hi" "0 \<le> hi"
    and "used \<Longrightarrow> hi < int (length xs0)" and "used \<Longrightarrow> v = f hi"
  shows "\<exists>p'. arg_write used p hi v = Inr p' \<and> opt_filled used xs0 p' lo (hi + 1) f"
proof (cases used)
  case False
  then show ?thesis using assms(1) by (simp add: arg_write_def opt_filled_def)
next
  case True
  with assms(1) obtain xs where p: "p = Some xs" and fl: "filled xs0 xs lo hi f"
    by (cases p) (simp_all add: opt_filled_def)
  note st = filled_step [OF fl assms(2,3) assms(4) [OF True] assms(5) [OF True]]
  show ?thesis using True p st by (simp add: arg_write_def opt_filled_def)
qed

lemma SpMMCmpCsr_filled:
  fixes ufeat efeat :: "('a :: {semiring_0, linorder}) NDArray option"
  assumes wf: "csr_wf csr"
    and lhs: "operand_ok (use_lhs op) ufeat (feat_dim (nd_shape out)) (csr_indices csr)"
    and rhs: "operand_ok (use_rhs op) efeat (feat_dim (nd_shape out))
                (edge_ids (csr_data csr) (length (csr_indices csr)))"
    and dim: "0 \<le> feat_dim (nd_shape out)"
    and out: "csr_num_rows csr * feat_dim (nd_shape out) \<le> int (length (nd_data out))"
    and au: "arg_ok (use_lhs op) argu (csr_num_rows csr * feat_dim (nd_shape out))"
    and ae: "arg_ok (use_rhs op) arge (csr_num_rows csr * feat_dim (nd_shape out))"
  shows "\<exists>res rx rw. SpMMCmpCsr L op cmp csr ufeat efeat out argu arge = Inr (res, rx, rw)
           \<and> filled (nd_data out) res 0 (csr_num_rows csr * feat_dim (nd_shape out))
               (\<lambda>p. fst (csr_cmp_cell L op cmp csr ufeat efeat (feat_dim (nd_shape out))
                      (p div feat_dim (nd_shape out)) (p mod feat_dim (nd_shape out))))
           \<and> opt_filled (use_lhs op) (feat argu) rx 0 (csr_num_rows csr * feat_dim (nd_shape out))
               (\<lambda>p. fst (snd (csr_cmp_cell L op cmp csr ufeat efeat (feat_dim (nd_shape out))
                      (p div feat_dim (nd_shape out)) (p mod feat_dim (nd_shape out)))))
           \<and> opt_filled (use_rhs op) (feat arge) rw 0 (csr_num_rows csr * feat_dim (nd_shape out))
               (\<lambda>p. snd (snd (csr_cmp_cell L op cmp csr ufeat efeat (feat_dim (nd_shape out))
                      (p div feat_dim (nd_shape out)) (p mod feat_dim (nd_shape out)))))"
proof -
  define dim where "dim = feat_dim (nd_shape out)"
  define X where "X = (if use_lhs op then Ptr (feat ufeat) 0 else nullptr)"
  define W where "W = (if use_rhs op then Ptr (feat efeat) 0 else nullptr)"
  define C where "C = (\<lambda>p. csr_cmp_cell L op cmp csr ufeat efeat dim (p div dim) (p mod dim))"
  define n where "n = csr_num_rows csr"
  define I where "I = (\<lambda>hi (st :: 'a list \<times> int list option \<times> int list option).
     filled (nd_data out) (fst st) 0 hi (\<lambda>p. fst (C p))
     \<and> opt_filled (use_lhs op) (feat argu) (fst (snd st)) 0 hi (\<lambda>p. fst (snd (C p)))
     \<and> opt_filled (use_rhs op) (feat arge) (snd (snd st)) 0 hi (\<lambda>p. snd (snd (C p))))"
  let ?ip = "csr_indptr csr"
  let ?cell = "\<lambda>rid k. for_loop (?ip ! nat rid) (?ip ! nat (rid + 1))
                       (\<lambda>j st.
                          bind (csr_candidate op X W dim csr k j) (\<lambda>c.
                            Inr (cmp_step op cmp c st)))
                       (Cmp_zero L cmp, 0, 0)"
  let ?kbody = "\<lambda>rid k (obuf, argX, argW).
               bind (?cell rid k)
                 (\<lambda>(accum, ax, aw).
                    bind (wr obuf (rid * dim + k) accum) (\<lambda>obuf.
                    bind (arg_write (use_lhs op) argX (rid * dim + k) ax) (\<lambda>argX.
                    bind (arg_write (use_rhs op) argW (rid * dim + k) aw) (\<lambda>argW.
                      Inr (obuf, argX, argW)))))"
  let ?body = "\<lambda>rid st.
          bind (rd ?ip rid) (\<lambda>row_start.
          bind (rd ?ip (rid + 1)) (\<lambda>row_end.
          for_loop 0 dim
            (\<lambda>k (obuf, argX, argW).
               bind (for_loop row_start row_end
                       (\<lambda>j st.
                          bind (csr_candidate op X W dim csr k j) (\<lambda>c.
                            Inr (cmp_step op cmp c st)))
                       (Cmp_zero L cmp, 0, 0))
                 (\<lambda>(accum, ax, aw).
                    bind (wr obuf (rid * dim + k) accum) (\<lambda>obuf.
                    bind (arg_write (use_lhs op) argX (rid * dim + k) ax) (\<lambda>argX.
                    bind (arg_write (use_rhs op) argW (rid * dim + k) aw) (\<lambda>argW.
                      Inr (obuf, argX, argW))))))
            st))"
  have n0: "0 \<le> n" using wf by (simp add: n_def csr_wf_def)
  have d0: "0 \<le> dim" using dim by (simp add: dim_def)
  have len: "n * dim \<le> int (length (nd_data out))" using out by (simp add: n_def dim_def)
  have lenu: "use_lhs op \<Longrightarrow> n * dim \<le> int (length (feat argu))"
    using au arg_ok_len [of argu "n * dim"] by (simp add: n_def dim_def)
  have lene: "use_rhs op \<Longrightarrow> n * dim \<le> int (length (feat arge))"
    using ae arg_ok_len [of arge "n * dim"] by (simp add: n_def dim_def)
  have cell: "?cell r k = Inr (csr_cmp_cell L op cmp csr ufeat efeat dim r k)"
    if r: "0 \<le> r" "r < n" and k: "0 \<le> k" "k < dim" for r k
  proof -
    note b = csr_nnz_bounds [OF wf r(1) r(2) [unfolded n_def]]
    let ?cand = "\<lambda>j. (csr_indices csr ! nat j, eid_of (csr_data csr) j,
                      csr_val op csr ufeat efeat dim k j)"
    have "?cell r k = Inr (fold (\<lambda>j. cmp_step op cmp (?cand j))
                             [?ip ! nat r .. ?ip ! nat (r + 1) - 1] (Cmp_zero L cmp, 0, 0))"
    proof (rule for_loop_fold)
      fix j s assume j: "?ip ! nat r \<le> j" "j < ?ip ! nat (r + 1)"
      have "0 \<le> j" "j < int (length (csr_indices csr))" using j b(1,3) by simp_all
      then have "csr_candidate op X W dim csr k j = Inr (?cand j)"
        unfolding X_def W_def
        using wf lhs rhs k by (intro csr_candidate_ok) (simp_all add: dim_def)
      then show "bind (csr_candidate op X W dim csr k j) (\<lambda>c. Inr (cmp_step op cmp c s))
                   = Inr (cmp_step op cmp (?cand j) s)" by simp
    qed
    then show ?thesis by (simp add: csr_cmp_cell_def csr_cands_def fold_map o_def)
  qed
  have row: "\<exists>t'. ?body r t = Inr t' \<and> I ((r + 1) * dim) t'"
    if r: "0 \<le> r" "r < n" and t: "I (r * dim) t" for r t
  proof -
    note b = csr_nnz_bounds [OF wf r(1) r(2) [unfolded n_def]]
    have rn: "(r + 1) * dim \<le> n * dim" using r d0 by (intro mult_right_mono) simp_all
    have "\<exists>t'. for_loop 0 dim (?kbody r) t = Inr t' \<and> I (r * dim + dim) t'"
    proof (rule for_loop_rule [where I = "\<lambda>k s. I (r * dim + k) s"])
      show "I (r * dim + 0) t" using t by simp
      show "0 \<le> dim" by (rule d0)
    next
      fix k s assume k: "0 \<le> k" "k < dim" and s: "I (r * dim + k) s"
      obtain obuf argX argW where sd: "s = (obuf, argX, argW)" by (cases s)
      obtain accum ax aw where cv: "csr_cmp_cell L op cmp csr ufeat efeat dim r k = (accum, ax, aw)"
        by (cases "csr_cmp_cell L op cmp csr ufeat efeat dim r k")
      have p: "0 \<le> r * dim + k" "r * dim + k < n * dim"
        using flat_bounds [of r k dim "n * dim"] r k rn by simp_all
      have Cp: "C (r * dim + k) = (accum, ax, aw)"
        using flat_div_mod [OF k, of r] cv by (simp add: C_def)
      have s1: "filled (nd_data out) obuf 0 (r * dim + k) (\<lambda>p. fst (C p))"
        and s2: "opt_filled (use_lhs op) (feat argu) argX 0 (r * dim + k) (\<lambda>p. fst (snd (C p)))"
        and s3: "opt_filled (use_rhs op) (feat arge) argW 0 (r * dim + k) (\<lambda>p. snd (snd (C p)))"
        using s by (simp_all add: I_def sd)
      have w1: "wr obuf (r * dim + k) accum = Inr (obuf[nat (r * dim + k) := accum])"
        and f1: "filled (nd_data out) (obuf[nat (r * dim + k) := accum]) 0 (r * dim + k + 1)
                   (\<lambda>p. fst (C p))"
        using filled_step [OF s1 p(1) p(1), of accum] p(2) len Cp by simp_all
      obtain argX' where w2: "arg_write (use_lhs op) argX (r * dim + k) ax = Inr argX'"
        and f2: "opt_filled (use_lhs op) (feat argu) argX' 0 (r * dim + k + 1) (\<lambda>p. fst (snd (C p)))"
      proof -
        have b: "use_lhs op \<Longrightarrow> r * dim + k < int (length (feat argu))"
          using p(2) lenu by linarith
        have v: "use_lhs op \<Longrightarrow> ax = fst (snd (C (r * dim + k)))" by (simp add: Cp)
        from arg_write_step [OF s2 p(1) p(1) b v] that show ?thesis by blast
      qed
      obtain argW' where w3: "arg_write (use_rhs op) argW (r * dim + k) aw = Inr argW'"
        and f3: "opt_filled (use_rhs op) (feat arge) argW' 0 (r * dim + k + 1) (\<lambda>p. snd (snd (C p)))"
      proof -
        have b: "use_rhs op \<Longrightarrow> r * dim + k < int (length (feat arge))"
          using p(2) lene by linarith
        have v: "use_rhs op \<Longrightarrow> aw = snd (snd (C (r * dim + k)))" by (simp add: Cp)
        from arg_write_step [OF s3 p(1) p(1) b v] that show ?thesis by blast
      qed
      have "?kbody r k s = Inr (obuf[nat (r * dim + k) := accum], argX', argW')"
        by (simp add: sd cell [OF r k] cv w1 w2 w3)
      moreover have "I (r * dim + (k + 1)) (obuf[nat (r * dim + k) := accum], argX', argW')"
        using f1 f2 f3 by (simp add: I_def add.assoc)
      ultimately show "\<exists>t'. ?kbody r k s = Inr t' \<and> I (r * dim + (k + 1)) t'" by blast
    qed
    moreover have "r * dim + dim = (r + 1) * dim" by (simp add: algebra_simps)
    ultimately show ?thesis by (simp add: b(4,5))
  qed
  have "\<exists>st. for_loop 0 n ?body (nd_data out, if use_lhs op then Some (feat argu) else None,
                                    if use_rhs op then Some (feat arge) else None) = Inr st
              \<and> I (n * dim) st"
  proof (rule for_loop_rule [where I = "\<lambda>r s. I (r * dim) s"])
    show "I (0 * dim) (nd_data out, if use_lhs op then Some (feat argu) else None,
                                    if use_rhs op then Some (feat arge) else None)"
      using filled_refl [of "nd_data out" 0] opt_filled_init [of "use_lhs op" "feat argu" 0]
        opt_filled_init [of "use_rhs op" "feat arge" 0]
      by (simp add: I_def)
    show "0 \<le> n" by (rule n0)
  next
    fix r t assume "0 \<le> r" "r < n" "I (r * dim) t"
    then show "\<exists>t'. ?body r t = Inr t' \<and> I ((r + 1) * dim) t'" by (rule row)
  qed
  moreover have "SpMMCmpCsr L op cmp csr ufeat efeat out argu arge
      = for_loop 0 n ?body (nd_data out, if use_lhs op then Some (feat argu) else None,
                                    if use_rhs op then Some (feat arge) else None)"
    unfolding SpMMCmpCsr_def operand_ptr_ok [OF lhs] operand_ptr_ok [OF rhs]
      arg_ptr_ok [OF au] arg_ptr_ok [OF ae]
    by (simp add: Let_def X_def W_def dim_def n_def)
  ultimately obtain st where st: "SpMMCmpCsr L op cmp csr ufeat efeat out argu arge = Inr st"
    and Ist: "I (n * dim) st" by auto
  obtain res rx rw where sd: "st = (res, rx, rw)" by (cases st)
  show ?thesis
    using st Ist unfolding sd I_def C_def dim_def n_def by auto
qed

lemma Cmp_Call_irrefl: "\<not> Cmp_Call cmp a a"
  by (cases cmp) simp_all

lemma Cmp_Call_keep: "Cmp_Call cmp a v \<Longrightarrow> \<not> Cmp_Call cmp a w \<Longrightarrow> \<not> Cmp_Call cmp v w"
  by (cases cmp) auto

lemma Cmp_Call_above: "Cmp_Call cmp a v \<Longrightarrow> \<not> Cmp_Call cmp a z \<Longrightarrow> Cmp_Call cmp z v"
  by (cases cmp) auto

lemma Cmp_Call_neq: "Cmp_Call cmp a v \<Longrightarrow> \<not> Cmp_Call cmp a w \<Longrightarrow> w \<noteq> v"
  by (cases cmp) auto

lemma cmp_post_Nil: "cmp_post op cmp z x0 y0 [] (z, x0, y0)"
  by (simp add: cmp_post_def Cmp_Call_irrefl)

lemma cmp_post_snoc:
  assumes "cmp_post op cmp z x0 y0 cs st"
  shows "cmp_post op cmp z x0 y0 (cs @ [c]) (cmp_step op cmp c st)"
proof -
  obtain a ax aw where st: "st = (a, ax, aw)" by (cases st)
  obtain cid eid v where c: "c = (cid, eid, v)" by (cases c)
  from assms have A: "\<forall>c \<in> set cs. \<not> Cmp_Call cmp a (snd (snd c))"
    and B: "\<not> Cmp_Call cmp a z"
    and C: "(a = z \<and> ax = x0 \<and> aw = y0)
           \<or> (\<exists>i < length cs. snd (snd (cs ! i)) = a \<and> Cmp_Call cmp z a
                 \<and> (\<forall>i' < i. snd (snd (cs ! i')) \<noteq> a)
                 \<and> ax = (if use_lhs op then fst (cs ! i) else x0)
                 \<and> aw = (if use_rhs op then fst (snd (cs ! i)) else y0))"
    by (simp_all add: cmp_post_def st)
  show ?thesis
  proof (cases "Cmp_Call cmp a v")
    case False
    have D: "(a = z \<and> ax = x0 \<and> aw = y0)
           \<or> (\<exists>i < length (cs @ [c]). snd (snd ((cs @ [c]) ! i)) = a \<and> Cmp_Call cmp z a
                 \<and> (\<forall>i' < i. snd (snd ((cs @ [c]) ! i')) \<noteq> a)
                 \<and> ax = (if use_lhs op then fst ((cs @ [c]) ! i) else x0)
                 \<and> aw = (if use_rhs op then fst (snd ((cs @ [c]) ! i)) else y0))"
    proof (rule disjE [OF C])
      assume "a = z \<and> ax = x0 \<and> aw = y0"
      then show ?thesis by simp
    next
      assume "\<exists>i < length cs. snd (snd (cs ! i)) = a \<and> Cmp_Call cmp z a
                 \<and> (\<forall>i' < i. snd (snd (cs ! i')) \<noteq> a)
                 \<and> ax = (if use_lhs op then fst (cs ! i) else x0)
                 \<and> aw = (if use_rhs op then fst (snd (cs ! i)) else y0)"
      then obtain i where i: "i < length cs" "snd (snd (cs ! i)) = a" "Cmp_Call cmp z a"
        "\<forall>i' < i. snd (snd (cs ! i')) \<noteq> a"
        "ax = (if use_lhs op then fst (cs ! i) else x0)"
        "aw = (if use_rhs op then fst (snd (cs ! i)) else y0)" by blast
      have "i < length (cs @ [c])" using i(1) by simp
      moreover have "\<forall>i' < i. snd (snd ((cs @ [c]) ! i')) \<noteq> a"
        using i(1,4) by (simp add: nth_append)
      ultimately show ?thesis using i by (intro disjI2 exI [of _ i]) (simp add: nth_append)
    qed
    show ?thesis
      using False A B D unfolding cmp_post_def st c by simp
  next
    case True
    have A': "\<forall>c' \<in> set (cs @ [c]). \<not> Cmp_Call cmp v (snd (snd c'))"
      using A Cmp_Call_keep [OF True] Cmp_Call_irrefl [of cmp v] by (auto simp: c)
    have B': "\<not> Cmp_Call cmp v z" using Cmp_Call_keep [OF True B] .
    have first: "\<forall>i' < length cs. snd (snd ((cs @ [c]) ! i')) \<noteq> v"
    proof (intro allI impI)
      fix i' assume "i' < length cs"
      then have "\<not> Cmp_Call cmp a (snd (snd (cs ! i')))" using A by simp
      from Cmp_Call_neq [OF True this] show "snd (snd ((cs @ [c]) ! i')) \<noteq> v"
        using \<open>i' < length cs\<close> by (simp add: nth_append)
    qed
    have x: "(if use_lhs op then cid else ax) = (if use_lhs op then cid else x0)"
      and y: "(if use_rhs op then eid else aw) = (if use_rhs op then eid else y0)"
      using C by auto
    have D': "\<exists>i < length (cs @ [c]). snd (snd ((cs @ [c]) ! i)) = v \<and> Cmp_Call cmp z v
                 \<and> (\<forall>i' < i. snd (snd ((cs @ [c]) ! i')) \<noteq> v)
                 \<and> (if use_lhs op then cid else ax) = (if use_lhs op then fst ((cs @ [c]) ! i) else x0)
                 \<and> (if use_rhs op then eid else aw)
                     = (if use_rhs op then fst (snd ((cs @ [c]) ! i)) else y0)"
      using first Cmp_Call_above [OF True B] x y
      by (intro exI [of _ "length cs"]) (simp add: c)
    show ?thesis
      using True A' B' D' unfolding cmp_post_def st c by simp
  qed
qed

lemma cmp_post_fold: "cmp_post op cmp z x0 y0 cs (fold (cmp_step op cmp) cs (z, x0, y0))"
proof (induction cs rule: rev_induct)
  case Nil
  show ?case by (simp add: cmp_post_Nil)
next
  case (snoc c cs)
  then show ?case using cmp_post_snoc [of op cmp z x0 y0 cs _ c] by simp
qed

lemma cmp_post_value:
  assumes "cmp_post op cmp z x0 y0 cs (a, ax, aw)"
  shows "a = cmp_red cmp (insert z ((\<lambda>c. snd (snd c)) ` set cs))"
proof -
  let ?S = "insert z ((\<lambda>c. snd (snd c)) ` set cs)"
  from assms have A: "\<forall>c \<in> set cs. \<not> Cmp_Call cmp a (snd (snd c))"
    and B: "\<not> Cmp_Call cmp a z"
    and C: "a \<in> ?S"
    by (auto simp: cmp_post_def)
  have fin: "finite ?S" by simp
  show ?thesis
  proof (cases cmp)
    case Max_op
    have "\<forall>y \<in> ?S. y \<le> a" using A B Max_op by auto
    then have "Max ?S = a" using C fin by (intro Max_eqI) auto
    then show ?thesis using Max_op by simp
  next
    case Min_op
    have "\<forall>y \<in> ?S. a \<le> y" using A B Min_op by auto
    then have "Min ?S = a" using C fin by (intro Min_eqI) auto
    then show ?thesis using Min_op by simp
  qed
qed

lemma fold_cmp_value:
  "fst (fold (cmp_step op cmp) cs (z, x0, y0)) = cmp_red cmp (insert z ((\<lambda>c. snd (snd c)) ` set cs))"
  using cmp_post_value [of op cmp z x0 y0 cs] cmp_post_fold [of op cmp z x0 y0 cs]
  by (cases "fold (cmp_step op cmp) cs (z, x0, y0)") simp

lemma cmp_red_insert_zero:
  assumes "finite S" "S \<noteq> {}" "\<forall>s \<in> S. \<not> Cmp_Call cmp s z"
  shows "cmp_red cmp (insert z S) = cmp_red cmp S"
proof (cases cmp)
  case Max_op
  have "z \<le> Max S" using assms Max_op by (meson Max_ge_iff Cmp_Call.simps(1) not_less ex_in_conv)
  then show ?thesis using assms(1,2) Max_op by (simp add: max_absorb2)
next
  case Min_op
  have "Min S \<le> z" using assms Min_op by (meson Min_le_iff Cmp_Call.simps(2) not_less ex_in_conv)
  then show ?thesis using assms(1,2) Min_op by (simp add: min_absorb2)
qed

lemma csr_cell_post:
  fixes ufeat efeat :: "('a :: {semiring_0, linorder}) NDArray option"
  assumes le: "csr_indptr csr ! nat r \<le> csr_indptr csr ! nat (r + 1)"
    and cell: "csr_cmp_cell L op cmp csr ufeat efeat dim r k = (a, ax, aw)"
  shows "\<forall>j. csr_indptr csr ! nat r \<le> j \<and> j < csr_indptr csr ! nat (r + 1) \<longrightarrow>
            \<not> Cmp_Call cmp a (csr_val op csr ufeat efeat dim k j)"
    and "\<not> Cmp_Call cmp a (Cmp_zero L cmp)"
    and "(a = Cmp_zero L cmp \<and> ax = 0 \<and> aw = 0)
         \<or> (\<exists>j0. csr_indptr csr ! nat r \<le> j0 \<and> j0 < csr_indptr csr ! nat (r + 1)
               \<and> csr_val op csr ufeat efeat dim k j0 = a \<and> Cmp_Call cmp (Cmp_zero L cmp) a
               \<and> (\<forall>j'. csr_indptr csr ! nat r \<le> j' \<and> j' < j0 \<longrightarrow>
                     csr_val op csr ufeat efeat dim k j' \<noteq> a)
               \<and> ax = (if use_lhs op then csr_indices csr ! nat j0 else 0)
               \<and> aw = (if use_rhs op then eid_of (csr_data csr) j0 else 0))"
    and "a = cmp_red cmp (insert (Cmp_zero L cmp)
               (csr_val op csr ufeat efeat dim k
                  ` {csr_indptr csr ! nat r ..< csr_indptr csr ! nat (r + 1)}))"
proof -
  define rs where "rs = csr_indptr csr ! nat r"
  define re where "re = csr_indptr csr ! nat (r + 1)"
  define z where "z = Cmp_zero L cmp"
  define v where "v = csr_val op csr ufeat efeat dim k"
  define cs where "cs = csr_cands op csr ufeat efeat dim r k"
  have cs: "cs = map (\<lambda>j. (csr_indices csr ! nat j, eid_of (csr_data csr) j, v j)) [rs .. re - 1]"
    by (simp add: cs_def csr_cands_def rs_def re_def v_def)
  have lcs: "length cs = nat (re - rs)" using le by (simp add: cs rs_def re_def)
  have nth: "cs ! i = (csr_indices csr ! nat (rs + int i), eid_of (csr_data csr) (rs + int i),
                        v (rs + int i))" if "i < length cs" for i
    using that lcs by (simp add: cs)
  have "set [rs .. re - 1] = {rs ..< re}" by auto
  then have setv: "(\<lambda>c. snd (snd c)) ` set cs = v ` {rs ..< re}"
    by (simp add: cs image_image)
  have post: "cmp_post op cmp z 0 0 cs (a, ax, aw)"
    using cmp_post_fold [of op cmp z 0 0 cs] cell by (simp add: csr_cmp_cell_def cs_def z_def)
  then have A: "\<forall>c \<in> set cs. \<not> Cmp_Call cmp a (snd (snd c))"
    and B: "\<not> Cmp_Call cmp a z"
    and C: "(a = z \<and> ax = 0 \<and> aw = 0)
           \<or> (\<exists>i < length cs. snd (snd (cs ! i)) = a \<and> Cmp_Call cmp z a
                 \<and> (\<forall>i' < i. snd (snd (cs ! i')) \<noteq> a)
                 \<and> ax = (if use_lhs op then fst (cs ! i) else 0)
                 \<and> aw = (if use_rhs op then fst (snd (cs ! i)) else 0))"
    by (simp_all add: cmp_post_def)
  have 1: "\<forall>j. rs \<le> j \<and> j < re \<longrightarrow> \<not> Cmp_Call cmp a (v j)"
  proof (intro allI impI)
    fix j assume "rs \<le> j \<and> j < re"
    then have "v j \<in> (\<lambda>c. snd (snd c)) ` set cs" unfolding setv by simp
    then show "\<not> Cmp_Call cmp a (v j)" using A by auto
  qed
  have 3: "(a = z \<and> ax = 0 \<and> aw = 0)
         \<or> (\<exists>j0. rs \<le> j0 \<and> j0 < re \<and> v j0 = a \<and> Cmp_Call cmp z a
               \<and> (\<forall>j'. rs \<le> j' \<and> j' < j0 \<longrightarrow> v j' \<noteq> a)
               \<and> ax = (if use_lhs op then csr_indices csr ! nat j0 else 0)
               \<and> aw = (if use_rhs op then eid_of (csr_data csr) j0 else 0))"
  proof (rule disjE [OF C])
    assume "a = z \<and> ax = 0 \<and> aw = 0"
    then show ?thesis by simp
  next
    assume "\<exists>i < length cs. snd (snd (cs ! i)) = a \<and> Cmp_Call cmp z a
                 \<and> (\<forall>i' < i. snd (snd (cs ! i')) \<noteq> a)
                 \<and> ax = (if use_lhs op then fst (cs ! i) else 0)
                 \<and> aw = (if use_rhs op then fst (snd (cs ! i)) else 0)"
    then obtain i where i: "i < length cs" "snd (snd (cs ! i)) = a" "Cmp_Call cmp z a"
      "\<forall>i' < i. snd (snd (cs ! i')) \<noteq> a"
      "ax = (if use_lhs op then fst (cs ! i) else 0)"
      "aw = (if use_rhs op then fst (snd (cs ! i)) else 0)" by blast
    define j0 where "j0 = rs + int i"
    have j0: "rs \<le> j0" "j0 < re" using i(1) lcs by (simp_all add: j0_def)
    have "\<forall>j'. rs \<le> j' \<and> j' < j0 \<longrightarrow> v j' \<noteq> a"
    proof (intro allI impI)
      fix j' assume j': "rs \<le> j' \<and> j' < j0"
      define i' where "i' = nat (j' - rs)"
      have "i' < i" "j' = rs + int i'" using j' unfolding i'_def j0_def by linarith+
      moreover from this have "i' < length cs" using i(1) by simp
      ultimately show "v j' \<noteq> a" using i(4) nth [of i'] by auto
    qed
    then show ?thesis
      using i nth [OF i(1)] j0 by (intro disjI2 exI [of _ j0]) (simp add: j0_def)
  qed
  have 4: "a = cmp_red cmp (insert z (v ` {rs ..< re}))"
    using cmp_post_value [OF post] by (simp only: setv)
  show "\<forall>j. csr_indptr csr ! nat r \<le> j \<and> j < csr_indptr csr ! nat (r + 1) \<longrightarrow>
            \<not> Cmp_Call cmp a (csr_val op csr ufeat efeat dim k j)"
    using 1 by (simp add: rs_def re_def v_def)
  show "\<not> Cmp_Call cmp a (Cmp_zero L cmp)" using B by (simp add: z_def)
  show "(a = Cmp_zero L cmp \<and> ax = 0 \<and> aw = 0)
         \<or> (\<exists>j0. csr_indptr csr ! nat r \<le> j0 \<and> j0 < csr_indptr csr ! nat (r + 1)
               \<and> csr_val op csr ufeat efeat dim k j0 = a \<and> Cmp_Call cmp (Cmp_zero L cmp) a
               \<and> (\<forall>j'. csr_indptr csr ! nat r \<le> j' \<and> j' < j0 \<longrightarrow>
                     csr_val op csr ufeat efeat dim k j' \<noteq> a)
               \<and> ax = (if use_lhs op then csr_indices csr ! nat j0 else 0)
               \<and> aw = (if use_rhs op then eid_of (csr_data csr) j0 else 0))"
    using 3 unfolding rs_def re_def v_def z_def .
  show "a = cmp_red cmp (insert (Cmp_zero L cmp)
               (csr_val op csr ufeat efeat dim k
                  ` {csr_indptr csr ! nat r ..< csr_indptr csr ! nat (r + 1)}))"
    using 4 unfolding rs_def re_def v_def z_def .
qed

lemma opt_filled_cases:
  assumes "opt_filled used xs0 p lo hi f"
  shows "\<exists>xs. p = (if used then Some xs else None) \<and> (used \<longrightarrow> filled xs0 xs lo hi f)"
  using assms by (cases used; cases p) (auto simp: opt_filled_def)

lemma cmp_red_single: "cmp_red cmp {z} = z"
  by (cases cmp) simp_all

text \<open>
  C4, as amended. \<open>Max\<close> (\<open>Min\<close>) starts from the lowest (highest) representable value and
  replaces on a strictly greater (smaller) candidate. For a well-formed CSR input whose
  candidates are representable, \<open>SpMMCmpCsr\<close> returns, and for every row \<open>r\<close> and feature \<open>k\<close>:
  the stored value is the maximum (minimum) of the candidates of a non-empty row and the
  identity for an empty row; when the stored value is not the identity, the argument entry of
  each operand in use names the first candidate in traversal order that has the stored value;
  when the stored value is the identity (an empty row, or candidates that do not beat the
  identity), the argument entry of each operand in use is 0. The kernel holds no pointer into
  the argument tensor of an operand that is not in use.
\<close>

theorem SpMMCmpCsr_extremum:
  fixes ufeat efeat :: "('a :: {semiring_0, linorder}) NDArray option"
  assumes wf: "csr_wf csr"
    and lhs: "operand_ok (use_lhs op) ufeat (feat_dim (nd_shape out)) (csr_indices csr)"
    and rhs: "operand_ok (use_rhs op) efeat (feat_dim (nd_shape out))
                (edge_ids (csr_data csr) (length (csr_indices csr)))"
    and dim: "0 \<le> feat_dim (nd_shape out)"
    and out: "csr_num_rows csr * feat_dim (nd_shape out) \<le> int (length (nd_data out))"
    and au: "arg_ok (use_lhs op) argu (csr_num_rows csr * feat_dim (nd_shape out))"
    and ae: "arg_ok (use_rhs op) arge (csr_num_rows csr * feat_dim (nd_shape out))"
    and rng: "cands_in_range L op csr ufeat efeat (feat_dim (nd_shape out))"
  shows "Cmp_zero L Max_op = lowest L \<and> Cmp_zero L Min_op = highest L
         \<and> (\<forall>a v :: 'a. Cmp_Call Max_op a v = (a < v) \<and> Cmp_Call Min_op a v = (v < a))
         \<and> (\<exists>res ax aw.
              SpMMCmpCsr L op cmp csr ufeat efeat out argu arge
                = Inr (res, if use_lhs op then Some ax else None, if use_rhs op then Some aw else None)
              \<and> (\<forall>r k. 0 \<le> r \<and> r < csr_num_rows csr \<and> 0 \<le> k \<and> k < feat_dim (nd_shape out) \<longrightarrow>
                   (let p = nat (r * feat_dim (nd_shape out) + k);
                        rs = csr_indptr csr ! nat r; re = csr_indptr csr ! nat (r + 1);
                        v = csr_val op csr ufeat efeat (feat_dim (nd_shape out)) k
                    in (rs < re \<longrightarrow> res ! p = cmp_red cmp (v ` {rs ..< re}))
                     \<and> (rs = re \<longrightarrow> res ! p = Cmp_zero L cmp)
                     \<and> (res ! p = Cmp_zero L cmp \<longrightarrow>
                          (use_lhs op \<longrightarrow> ax ! p = 0) \<and> (use_rhs op \<longrightarrow> aw ! p = 0))
                     \<and> (res ! p \<noteq> Cmp_zero L cmp \<longrightarrow>
                          (\<exists>j0. rs \<le> j0 \<and> j0 < re \<and> v j0 = res ! p
                             \<and> (\<forall>j'. rs \<le> j' \<and> j' < j0 \<longrightarrow> v j' \<noteq> res ! p)
                             \<and> (use_lhs op \<longrightarrow> ax ! p = csr_indices csr ! nat j0)
                             \<and> (use_rhs op \<longrightarrow> aw ! p = eid_of (csr_data csr) j0))))))"
proof -
  have lim: "\<forall>j k. 0 \<le> j \<and> j < int (length (csr_indices csr))
                \<and> 0 \<le> k \<and> k < feat_dim (nd_shape out) \<longrightarrow>
                lowest L \<le> csr_val op csr ufeat efeat (feat_dim (nd_shape out)) k j
                \<and> csr_val op csr ufeat efeat (feat_dim (nd_shape out)) k j \<le> highest L"
    using rng by (simp add: cands_in_range_def list_all_iff)
  define dim where "dim = feat_dim (nd_shape out)"
  define n where "n = csr_num_rows csr"
  define z where "z = Cmp_zero L cmp"
  define C where "C = (\<lambda>p. csr_cmp_cell L op cmp csr ufeat efeat dim (p div dim) (p mod dim))"
  from SpMMCmpCsr_filled [OF wf lhs rhs dim out au ae, of L cmp]
  obtain res rx rw where run: "SpMMCmpCsr L op cmp csr ufeat efeat out argu arge = Inr (res, rx, rw)"
    and f1: "filled (nd_data out) res 0 (n * dim) (\<lambda>p. fst (C p))"
    and f2: "opt_filled (use_lhs op) (feat argu) rx 0 (n * dim) (\<lambda>p. fst (snd (C p)))"
    and f3: "opt_filled (use_rhs op) (feat arge) rw 0 (n * dim) (\<lambda>p. snd (snd (C p)))"
    unfolding dim_def n_def C_def by blast
  from opt_filled_cases [OF f2]
  obtain ax where rx: "rx = (if use_lhs op then Some ax else None)"
    and fx: "use_lhs op \<Longrightarrow> filled (feat argu) ax 0 (n * dim) (\<lambda>p. fst (snd (C p)))"
    by blast
  from opt_filled_cases [OF f3]
  obtain aw where rw: "rw = (if use_rhs op then Some aw else None)"
    and fw: "use_rhs op \<Longrightarrow> filled (feat arge) aw 0 (n * dim) (\<lambda>p. snd (snd (C p)))"
    by blast
  have lenu: "use_lhs op \<Longrightarrow> n * dim \<le> int (length (feat argu))"
    using au arg_ok_len [of argu "n * dim"] by (simp add: n_def dim_def)
  have lene: "use_rhs op \<Longrightarrow> n * dim \<le> int (length (feat arge))"
    using ae arg_ok_len [of arge "n * dim"] by (simp add: n_def dim_def)
  have cellprop:
    "(let p = nat (r * dim + k);
          rs = csr_indptr csr ! nat r; re = csr_indptr csr ! nat (r + 1);
          v = csr_val op csr ufeat efeat dim k
      in (rs < re \<longrightarrow> res ! p = cmp_red cmp (v ` {rs ..< re}))
       \<and> (rs = re \<longrightarrow> res ! p = z)
       \<and> (res ! p = z \<longrightarrow> (use_lhs op \<longrightarrow> ax ! p = 0) \<and> (use_rhs op \<longrightarrow> aw ! p = 0))
       \<and> (res ! p \<noteq> z \<longrightarrow>
            (\<exists>j0. rs \<le> j0 \<and> j0 < re \<and> v j0 = res ! p
               \<and> (\<forall>j'. rs \<le> j' \<and> j' < j0 \<longrightarrow> v j' \<noteq> res ! p)
               \<and> (use_lhs op \<longrightarrow> ax ! p = csr_indices csr ! nat j0)
               \<and> (use_rhs op \<longrightarrow> aw ! p = eid_of (csr_data csr) j0))))"
    if r: "0 \<le> r" "r < n" and k: "0 \<le> k" "k < dim" for r k
  proof -
    define rs where "rs = csr_indptr csr ! nat r"
    define re where "re = csr_indptr csr ! nat (r + 1)"
    define v where "v = csr_val op csr ufeat efeat dim k"
    note b = csr_nnz_bounds [OF wf r(1) r(2) [unfolded n_def]]
    obtain a x y where cv: "csr_cmp_cell L op cmp csr ufeat efeat dim r k = (a, x, y)"
      by (cases "csr_cmp_cell L op cmp csr ufeat efeat dim r k")
    have rn: "(r + 1) * dim \<le> n * dim" using r k by (intro mult_right_mono) simp_all
    have p: "0 \<le> r * dim + k" "r * dim + k < n * dim"
      using flat_bounds [of r k dim "n * dim"] r k rn by simp_all
    have Cp: "C (r * dim + k) = (a, x, y)"
      using flat_div_mod [OF k, of r] cv by (simp add: C_def)
    have pl: "r * dim + k < int (length (nd_data out))" using p(2) out by (simp add: n_def dim_def)
    have ra: "res ! nat (r * dim + k) = a"
      using f1 p pl Cp by (simp add: filled_def)
    have xa: "ax ! nat (r * dim + k) = x" if "use_lhs op"
      using fx [OF that] lenu [OF that] p Cp by (simp add: filled_def)
    have ya: "aw ! nat (r * dim + k) = y" if "use_rhs op"
      using fw [OF that] lene [OF that] p Cp by (simp add: filled_def)
    note post = csr_cell_post [OF b(2) cv, folded rs_def re_def v_def z_def]
    have inl: "\<not> Cmp_Call cmp (v j) z" if "rs \<le> j" "j < re" for j
    proof -
      have "0 \<le> j" "j < int (length (csr_indices csr))" using that b(1,3) by (simp_all add: rs_def re_def)
      with lim k have "lowest L \<le> v j \<and> v j \<le> highest L" by (simp add: v_def dim_def)
      then show ?thesis by (cases cmp) (auto simp: z_def)
    qed
    have 1: "rs < re \<longrightarrow> a = cmp_red cmp (v ` {rs ..< re})"
    proof
      assume ne: "rs < re"
      have "cmp_red cmp (insert z (v ` {rs ..< re})) = cmp_red cmp (v ` {rs ..< re})"
        using ne inl by (intro cmp_red_insert_zero) auto
      then show "a = cmp_red cmp (v ` {rs ..< re})" using post(4) by simp
    qed
    have 2: "rs = re \<longrightarrow> a = z" using post(4) by (auto simp: cmp_red_single)
    have 3: "a = z \<longrightarrow> x = 0 \<and> y = 0"
      using post(3) Cmp_Call_irrefl [of cmp z] by auto
    have 4: "a \<noteq> z \<longrightarrow> (\<exists>j0. rs \<le> j0 \<and> j0 < re \<and> v j0 = a
               \<and> (\<forall>j'. rs \<le> j' \<and> j' < j0 \<longrightarrow> v j' \<noteq> a)
               \<and> (use_lhs op \<longrightarrow> x = csr_indices csr ! nat j0)
               \<and> (use_rhs op \<longrightarrow> y = eid_of (csr_data csr) j0))"
      using post(3) by auto
    show ?thesis
      unfolding Let_def rs_def [symmetric] re_def [symmetric] v_def [symmetric] ra
      using 1 2 3 4 xa ya by auto
  qed
  have "\<exists>res ax aw.
              SpMMCmpCsr L op cmp csr ufeat efeat out argu arge
                = Inr (res, if use_lhs op then Some ax else None, if use_rhs op then Some aw else None)
              \<and> (\<forall>r k. 0 \<le> r \<and> r < n \<and> 0 \<le> k \<and> k < dim \<longrightarrow>
                   (let p = nat (r * dim + k);
                        rs = csr_indptr csr ! nat r; re = csr_indptr csr ! nat (r + 1);
                        v = csr_val op csr ufeat efeat dim k
                    in (rs < re \<longrightarrow> res ! p = cmp_red cmp (v ` {rs ..< re}))
                     \<and> (rs = re \<longrightarrow> res ! p = z)
                     \<and> (res ! p = z \<longrightarrow>
                          (use_lhs op \<longrightarrow> ax ! p = 0) \<and> (use_rhs op \<longrightarrow> aw ! p = 0))
                     \<and> (res ! p \<noteq> z \<longrightarrow>
                          (\<exists>j0. rs \<le> j0 \<and> j0 < re \<and> v j0 = res ! p
                             \<and> (\<forall>j'. rs \<le> j' \<and> j' < j0 \<longrightarrow> v j' \<noteq> res ! p)
                             \<and> (use_lhs op \<longrightarrow> ax ! p = csr_indices csr ! nat j0)
                             \<and> (use_rhs op \<longrightarrow> aw ! p = eid_of (csr_data csr) j0)))))"
    using run rx rw cellprop by (intro exI [of _ res] exI [of _ ax] exI [of _ aw]) blast
  then show ?thesis unfolding dim_def n_def z_def by simp
qed

theorem SpMMCmpCsr_extremum_witness:
  "csr_wf ex_csr
   \<and> operand_ok (use_lhs Mul) ex_ufeat (feat_dim (nd_shape ex_out)) (csr_indices ex_csr)
   \<and> operand_ok (use_rhs Mul) ex_efeat (feat_dim (nd_shape ex_out))
       (edge_ids (csr_data ex_csr) (length (csr_indices ex_csr)))
   \<and> 0 \<le> feat_dim (nd_shape ex_out)
   \<and> csr_num_rows ex_csr * feat_dim (nd_shape ex_out) \<le> int (length (nd_data ex_out))
   \<and> arg_ok (use_lhs Mul) ex_arg (csr_num_rows ex_csr * feat_dim (nd_shape ex_out))
   \<and> arg_ok (use_rhs Mul) ex_arg (csr_num_rows ex_csr * feat_dim (nd_shape ex_out))
   \<and> cands_in_range ex_limits Mul ex_csr ex_ufeat ex_efeat (feat_dim (nd_shape ex_out))
   \<and> SpMMCmpCsr ex_limits Mul Max_op ex_csr ex_ufeat ex_efeat ex_out ex_arg ex_arg
       = Inr ([250, 360, - 2147483648, - 2147483648, 30, 80],
              Some [2, 2, 0, 0, 0, 0], Some [2, 2, 0, 0, 1, 1])"
proof -
  have h1: "csr_wf ex_csr" by (simp add: csr_wf_def ex_defs)
  have d: "feat_dim (nd_shape ex_out) = 2" by (simp add: feat_dim_def ex_defs upt_rec)
  have h2: "operand_ok (use_lhs Mul) ex_ufeat (feat_dim (nd_shape ex_out)) (csr_indices ex_csr)"
    unfolding d by (simp add: operand_ok_def ex_defs)
  have h3: "operand_ok (use_rhs Mul) ex_efeat (feat_dim (nd_shape ex_out))
       (edge_ids (csr_data ex_csr) (length (csr_indices ex_csr)))"
    unfolding d by (simp add: operand_ok_def edge_ids_def ex_defs)
  have h4: "0 \<le> feat_dim (nd_shape ex_out)" unfolding d by simp
  have h5: "csr_num_rows ex_csr * feat_dim (nd_shape ex_out) \<le> int (length (nd_data ex_out))"
    unfolding d by (simp add: ex_defs)
  have h6: "arg_ok (use_lhs Mul) ex_arg (csr_num_rows ex_csr * feat_dim (nd_shape ex_out))"
    unfolding d by (simp add: arg_ok_def ex_defs)
  have h7: "arg_ok (use_rhs Mul) ex_arg (csr_num_rows ex_csr * feat_dim (nd_shape ex_out))"
    unfolding d by (simp add: arg_ok_def ex_defs)
  have h8: "cands_in_range ex_limits Mul ex_csr ex_ufeat ex_efeat (feat_dim (nd_shape ex_out))"
    unfolding d by (simp add: cands_in_range_def csr_val_def eid_of_def feat_def ex_defs upto.simps)
  have ev: "SpMMCmpCsr ex_limits Mul Max_op ex_csr ex_ufeat ex_efeat ex_out ex_arg ex_arg
       = Inr ([250, 360, - 2147483648, - 2147483648, 30, 80],
              Some [2, 2, 0, 0, 0, 0], Some [2, 2, 0, 0, 1, 1])"
    by (simp add: spmm_eval ex_defs)
  note t = SpMMCmpCsr_extremum [OF h1 h2 h3 h4 h5 h6 h7 h8, of Max_op]
  from t ev h1 h2 h3 h4 h5 h6 h7 h8 show ?thesis by blast
qed

text \<open>
  C4 as stated fails where a candidate equals the identity: the only neighbour of the row,
  node 1, has the lowest representable value; it is never strictly greater than the
  accumulator, so the stored value is the candidate's and the recorded argument is 0, not 1.
  With \<open>copy_u\<close> the kernel has no pointer into \<open>arge\<close> and writes no entry there.
\<close>

theorem SpMMCmpCsr_identity_candidate_counterexample:
  "SpMMCmpCsr ex_limits CopyLhs Max_op
      \<lparr>csr_num_rows = 1, csr_num_cols = 2, csr_indptr = [0, 1], csr_indices = [1],
        csr_data = None\<rparr>
      (Some \<lparr>nd_shape = [2, 1], nd_data = [5, - 2147483648]\<rparr>) None
      \<lparr>nd_shape = [1, 1], nd_data = [0]\<rparr>
      (Some \<lparr>nd_shape = [1, 1], nd_data = [7]\<rparr>) (Some \<lparr>nd_shape = [1, 1], nd_data = [7]\<rparr>)
     = Inr ([- 2147483648], Some [0], None)
   \<and> csr_val CopyLhs
        \<lparr>csr_num_rows = 1, csr_num_cols = 2, csr_indptr = [0, 1], csr_indices = [1],
          csr_data = None\<rparr>
        (Some \<lparr>nd_shape = [2, 1], nd_data = [5, - 2147483648]\<rparr>) None 1 0 0
       = Cmp_zero ex_limits Max_op
   \<and> Cmp_zero ex_limits Max_op = - 2147483648
   \<and> csr_indices \<lparr>csr_num_rows = 1, csr_num_cols = 2, csr_indptr = [0, 1], csr_indices = [1],
          csr_data = None\<rparr> ! 0 = 1"
  by (simp add: spmm_eval ex_defs csr_val_def feat_def eid_of_def)

subsection \<open>Reductions over COO\<close>

lemma filled_skip:
  assumes "filled xs0 xs lo hi f" "lo \<le> hi" "0 \<le> hi" "hi < int (length xs0)" "f hi = xs0 ! nat hi"
  shows "filled xs0 xs lo (hi + 1) f"
  unfolding filled_def
proof (intro conjI allI impI)
  show "length xs = length xs0" using assms(1) by (simp add: filled_def)
next
  fix p assume p: "0 \<le> p \<and> p < int (length xs0)"
  have e: "xs ! nat p = (if lo \<le> p \<and> p < hi then f p else xs0 ! nat p)"
    using assms(1) p by (simp add: filled_def)
  show "xs ! nat p = (if lo \<le> p \<and> p < hi + 1 then f p else xs0 ! nat p)"
  proof (cases "p = hi")
    case True
    then show ?thesis using e assms(2,5) by simp
  next
    case False
    then show ?thesis using e by auto
  qed
qed

lemma filled_at:
  assumes "filled xs0 xs lo hi f" "0 \<le> p" "p < int (length xs0)"
  shows "xs ! nat p = (if lo \<le> p \<and> p < hi then f p else xs0 ! nat p)"
    and "rd xs p = Inr (xs ! nat p)"
  using assms by (simp_all add: filled_def rd_def)

lemma filled_all:
  assumes "filled xs0 xs lo hi f"
    and "\<And>p. 0 \<le> p \<Longrightarrow> p < int (length xs0) \<Longrightarrow> \<not> (lo \<le> p \<and> p < hi) \<Longrightarrow> xs0 ! nat p = f p"
    and "length ys = length xs0"
  shows "filled ys xs 0 (int (length xs0)) f"
  using assms unfolding filled_def by auto

lemma memset_zero_ok:
  assumes "int (length xs) = n"
  shows "memset_zero xs n = Inr (replicate (length xs) 0)"
  using assms by (auto simp: memset_zero_def)

lemma coo_operands:
  fixes ufeat efeat :: "('a :: {plus, times}) NDArray option"
  assumes wf: "coo_wf coo"
    and lhs: "operand_ok (use_lhs op) ufeat dim (coo_row coo)"
    and rhs: "operand_ok (use_rhs op) efeat dim (edge_ids (coo_data coo) (length (coo_row coo)))"
    and i: "0 \<le> i" "i < int (length (coo_row coo))"
  shows "rd (coo_row coo) i = Inr (coo_row coo ! nat i)"
    and "rd (coo_col coo) i = Inr (coo_col coo ! nat i)"
    and "edge_id (coo_data coo) i = Inr (eid_of (coo_data coo) i)"
    and "\<And>k. 0 \<le> k \<Longrightarrow> k < dim \<Longrightarrow>
           SpMM_val op (if use_lhs op then Ptr (feat ufeat) 0 else nullptr)
             (if use_rhs op then Ptr (feat efeat) 0 else nullptr) dim
             (coo_row coo ! nat i) (eid_of (coo_data coo) i) k
           = Inr (coo_val op coo ufeat efeat dim k i)"
proof -
  have d: "case coo_data coo of None \<Rightarrow> True | Some es \<Rightarrow> length es = length (coo_row coo)"
    and lc: "length (coo_col coo) = length (coo_row coo)"
    using wf by (simp_all add: coo_wf_def)
  show "rd (coo_row coo) i = Inr (coo_row coo ! nat i)" using i by (simp add: rd_def)
  show "rd (coo_col coo) i = Inr (coo_col coo ! nat i)" using i lc by (simp add: rd_def)
  show "edge_id (coo_data coo) i = Inr (eid_of (coo_data coo) i)" using i d by (rule edge_id_ok)
  fix k :: int assume k: "0 \<le> k" "k < dim"
  show "SpMM_val op (if use_lhs op then Ptr (feat ufeat) 0 else nullptr)
             (if use_rhs op then Ptr (feat efeat) 0 else nullptr) dim
             (coo_row coo ! nat i) (eid_of (coo_data coo) i) k
           = Inr (coo_val op coo ufeat efeat dim k i)"
    unfolding coo_val_def
  proof (rule SpMM_val_ok)
    assume u: "use_lhs op"
    have "coo_row coo ! nat i \<in> set (coo_row coo)" using i by simp
    then show "0 \<le> coo_row coo ! nat i * dim + k
        \<and> coo_row coo ! nat i * dim + k < int (length (feat ufeat))"
      using lhs u k by (intro operand_ok_nth [where ids = "coo_row coo"]) simp_all
  next
    assume u: "use_rhs op"
    have "eid_of (coo_data coo) i \<in> set (edge_ids (coo_data coo) (length (coo_row coo)))"
      using i d by (rule edge_ids_nth)
    then show "0 \<le> eid_of (coo_data coo) i * dim + k
        \<and> eid_of (coo_data coo) i * dim + k < int (length (feat efeat))"
      using rhs u k
      by (intro operand_ok_nth [where ids = "edge_ids (coo_data coo) (length (coo_row coo))"])
         simp_all
  qed
qed

lemma targets_ok_nth:
  assumes "targets_ok cols dim len" "0 \<le> i" "i < int (length cols)" "0 \<le> k" "k < dim"
  shows "0 \<le> cols ! nat i * dim + k" and "cols ! nat i * dim + k < len"
proof -
  have "cols ! nat i \<in> set cols" using assms(2,3) by simp
  then have "0 \<le> cols ! nat i" "(cols ! nat i + 1) * dim \<le> len"
    using assms(1) by (simp_all add: targets_ok_def list_all_iff)
  then show "0 \<le> cols ! nat i * dim + k" and "cols ! nat i * dim + k < len"
    using flat_bounds [of "cols ! nat i" k dim len] assms(4,5) by simp_all
qed

lemma coo_sum_Suc:
  fixes ufeat efeat :: "('a :: semiring_0) NDArray option"
  assumes "0 \<le> i"
  shows "coo_sum op coo ufeat efeat dim (i + 1) p
         = coo_sum op coo ufeat efeat dim i p + coo_contrib op coo ufeat efeat dim p i"
  using assms by (simp add: coo_sum_def sum_int_ivl_Suc)

lemma SpMMSumCoo_filled:
  fixes ufeat efeat :: "('a :: semiring_0) NDArray option"
  assumes wf: "coo_wf coo"
    and lhs: "operand_ok (use_lhs op) ufeat (feat_dim (nd_shape out)) (coo_row coo)"
    and rhs: "operand_ok (use_rhs op) efeat (feat_dim (nd_shape out))
                (edge_ids (coo_data coo) (length (coo_row coo)))"
    and dim: "0 \<le> feat_dim (nd_shape out)"
    and tg: "targets_ok (coo_col coo) (feat_dim (nd_shape out)) (int (length (nd_data out)))"
    and numel: "int (length (nd_data out)) = Numel out"
  shows "\<exists>res. SpMMSumCoo op coo ufeat efeat out = Inr res
           \<and> filled (nd_data out) res 0 (int (length (nd_data out)))
               (coo_sum op coo ufeat efeat (feat_dim (nd_shape out)) (int (length (coo_row coo))))"
proof -
  define dim where "dim = feat_dim (nd_shape out)"
  define X where "X = (if use_lhs op then Ptr (feat ufeat) 0 else nullptr)"
  define W where "W = (if use_rhs op then Ptr (feat efeat) 0 else nullptr)"
  define nnz where "nnz = int (length (coo_row coo))"
  define len where "len = int (length (nd_data out))"
  define S where "S = coo_sum op coo ufeat efeat dim"
  define O0 where "O0 = replicate (length (nd_data out)) (0 :: 'a)"
  let ?kbody = "\<lambda>rid cid eid k obuf.
               bind (SpMM_val op X W dim rid eid k) (\<lambda>val.
               bind (rd obuf (cid * dim + k)) (\<lambda>old.
                 wr obuf (cid * dim + k) (old + val)))"
  let ?body = "\<lambda>i obuf.
          bind (rd (coo_row coo) i) (\<lambda>rid.
          bind (rd (coo_col coo) i) (\<lambda>cid.
          bind (edge_id (coo_data coo) i) (\<lambda>eid.
          for_loop 0 dim
            (\<lambda>k obuf.
               bind (SpMM_val op X W dim rid eid k) (\<lambda>val.
               bind (rd obuf (cid * dim + k)) (\<lambda>old.
                 wr obuf (cid * dim + k) (old + val))))
            obuf)))"
  have d0: "0 \<le> dim" using dim by (simp add: dim_def)
  have lO0: "int (length O0) = len" by (simp add: O0_def len_def)
  have lc: "length (coo_col coo) = length (coo_row coo)" using wf by (simp add: coo_wf_def)
  have step: "\<exists>t'. ?body i t = Inr t' \<and> filled O0 t' 0 len (S (i + 1))"
    if i: "0 \<le> i" "i < nnz" and t: "filled O0 t 0 len (S i)" for i t
  proof -
    define cid where "cid = coo_col coo ! nat i"
    define rid where "rid = coo_row coo ! nat i"
    define eid where "eid = eid_of (coo_data coo) i"
    note ops = coo_operands [OF wf lhs [folded dim_def] rhs [folded dim_def] i(1) i(2) [unfolded nnz_def]]
    have lt: "length t = length O0" using t by (simp add: filled_def)
    have tv: "t ! nat p = S i p" if "0 \<le> p" "p < len" for p
      using t that lO0 by (simp add: filled_def)
    have Sout: "S (i + 1) p = S i p" if "\<not> (cid * dim \<le> p \<and> p < cid * dim + dim)" for p
      using that coo_sum_Suc [OF i(1), of op coo ufeat efeat dim p]
      by (auto simp: S_def coo_contrib_def coo_hits_def cid_def)
    have Sin: "S (i + 1) (cid * dim + k) = S i (cid * dim + k) + coo_val op coo ufeat efeat dim k i"
      if "0 \<le> k" "k < dim" for k
      using that coo_sum_Suc [OF i(1), of op coo ufeat efeat dim "cid * dim + k"]
      by (auto simp: S_def coo_contrib_def coo_hits_def cid_def)
    have "\<exists>t'. for_loop 0 dim (?kbody rid cid eid) t = Inr t'
            \<and> filled t t' (cid * dim) (cid * dim + dim) (S (i + 1))"
    proof (rule for_loop_rule [where I = "\<lambda>k s. filled t s (cid * dim) (cid * dim + k) (S (i + 1))"])
      show "filled t t (cid * dim) (cid * dim + 0) (S (i + 1))" using filled_refl [of t "cid * dim"] by simp
      show "0 \<le> dim" by (rule d0)
    next
      fix k s assume k: "0 \<le> k" "k < dim"
        and s: "filled t s (cid * dim) (cid * dim + k) (S (i + 1))"
      have p: "0 \<le> cid * dim + k" "cid * dim + k < len"
        using targets_ok_nth [OF tg [folded dim_def len_def], of i k] i k lc
        by (simp_all add: cid_def nnz_def)
      have pt: "cid * dim + k < int (length t)" using p(2) lt lO0 by simp
      have cur: "s ! nat (cid * dim + k) = S i (cid * dim + k)"
        using filled_at(1) [OF s p(1) pt] tv [OF p] by simp
      have r: "rd s (cid * dim + k) = Inr (S i (cid * dim + k))"
        using filled_at(2) [OF s p(1) pt] cur by simp
      have v: "SpMM_val op X W dim rid eid k = Inr (coo_val op coo ufeat efeat dim k i)"
        unfolding X_def W_def rid_def eid_def by (rule ops(4) [OF k])
      have le: "cid * dim \<le> cid * dim + k" using k by simp
      note st = filled_step [OF s le p(1) pt, of "S i (cid * dim + k) + coo_val op coo ufeat efeat dim k i"]
      show "\<exists>t'. ?kbody rid cid eid k s = Inr t'
               \<and> filled t t' (cid * dim) (cid * dim + (k + 1)) (S (i + 1))"
        using st Sin [OF k] by (simp add: v r add.assoc)
    qed
    then obtain t' where run: "for_loop 0 dim (?kbody rid cid eid) t = Inr t'"
      and f: "filled t t' (cid * dim) (cid * dim + dim) (S (i + 1))" by blast
    have "filled O0 t' 0 len (S (i + 1))"
      unfolding filled_def
    proof (intro conjI allI impI)
      show "length t' = length O0" using f lt by (simp add: filled_def)
    next
      fix p assume p: "0 \<le> p \<and> p < int (length O0)"
      then have pt: "0 \<le> p" "p < int (length t)" "p < len" using lt lO0 by simp_all
      have "t' ! nat p = S (i + 1) p"
        using filled_at(1) [OF f pt(1,2)] tv [OF pt(1,3)] Sout [of p] by auto
      then show "t' ! nat p = (if 0 \<le> p \<and> p < len then S (i + 1) p else O0 ! nat p)"
        using pt by simp
    qed
    then show ?thesis
      using run ops(1,2,3) by (simp add: cid_def rid_def eid_def)
  qed
  have "\<exists>res. for_loop 0 nnz ?body O0 = Inr res \<and> filled O0 res 0 len (S nnz)"
  proof (rule for_loop_rule [where I = "\<lambda>i s. filled O0 s 0 len (S i)"])
    show "filled O0 O0 0 len (S 0)"
      by (auto simp: filled_def O0_def S_def coo_sum_def len_def)
    show "0 \<le> nnz" by (simp add: nnz_def)
  next
    fix i t assume "0 \<le> i" "i < nnz" "filled O0 t 0 len (S i)"
    then show "\<exists>t'. ?body i t = Inr t' \<and> filled O0 t' 0 len (S (i + 1))" by (rule step)
  qed
  moreover have "SpMMSumCoo op coo ufeat efeat out = for_loop 0 nnz ?body O0"
    unfolding SpMMSumCoo_def operand_ptr_ok [OF lhs] operand_ptr_ok [OF rhs]
    by (simp add: Let_def memset_zero_ok [OF numel] X_def W_def dim_def nnz_def O0_def)
  moreover have "filled (nd_data out) res 0 len (S nnz)" if "filled O0 res 0 len (S nnz)" for res
    using that by (simp add: filled_def O0_def len_def)
  ultimately show ?thesis unfolding S_def dim_def nnz_def len_def by auto
qed

lemma filled_compose:
  assumes "filled xs0 t 0 len f" "filled t t' lo hi g" "hi \<le> len"
    and "\<And>p. 0 \<le> p \<Longrightarrow> p < len \<Longrightarrow> lo \<le> p \<and> p < hi \<Longrightarrow> g p = f' p"
    and "\<And>p. 0 \<le> p \<Longrightarrow> p < len \<Longrightarrow> \<not> (lo \<le> p \<and> p < hi) \<Longrightarrow> f p = f' p"
  shows "filled xs0 t' 0 len f'"
  unfolding filled_def
proof (intro conjI allI impI)
  show "length t' = length xs0" using assms(1,2) by (simp add: filled_def)
next
  fix p assume p: "0 \<le> p \<and> p < int (length xs0)"
  have lt: "length t = length xs0" using assms(1) by (simp add: filled_def)
  have a: "t' ! nat p = (if lo \<le> p \<and> p < hi then g p else t ! nat p)"
    using assms(2) p lt by (simp add: filled_def)
  have b: "t ! nat p = (if 0 \<le> p \<and> p < len then f p else xs0 ! nat p)"
    using assms(1) p by (simp add: filled_def)
  show "t' ! nat p = (if 0 \<le> p \<and> p < len then f' p else xs0 ! nat p)"
  proof (cases "p < len")
    case True
    then show ?thesis using a b p assms(4) [of p] assms(5) [of p] by auto
  next
    case False
    then have "\<not> (lo \<le> p \<and> p < hi)" using assms(3) by simp
    then show ?thesis using a b False by auto
  qed
qed

lemma opt_filled_compose:
  assumes "opt_filled used xs0 pt 0 len f"
    and "opt_filled used (case pt of None \<Rightarrow> [] | Some xs \<Rightarrow> xs) pt' lo hi g" "hi \<le> len"
    and "\<And>p. 0 \<le> p \<Longrightarrow> p < len \<Longrightarrow> lo \<le> p \<and> p < hi \<Longrightarrow> g p = f' p"
    and "\<And>p. 0 \<le> p \<Longrightarrow> p < len \<Longrightarrow> \<not> (lo \<le> p \<and> p < hi) \<Longrightarrow> f p = f' p"
  shows "opt_filled used xs0 pt' 0 len f'"
proof (cases used)
  case False
  then show ?thesis using assms(2) by (simp add: opt_filled_def)
next
  case True
  from assms(1) True obtain t where pt: "pt = Some t" and ft: "filled xs0 t 0 len f"
    by (cases pt) (simp_all add: opt_filled_def)
  from assms(2) True pt obtain t' where pt': "pt' = Some t'" and ft': "filled t t' lo hi g"
    by (cases pt') (simp_all add: opt_filled_def)
  show ?thesis
    using filled_compose [OF ft ft' assms(3)] assms(4,5) True pt' by (simp add: opt_filled_def)
qed

lemma opt_filled_start:
  assumes "opt_filled used xs0 pt lo' hi' f"
  shows "opt_filled used (case pt of None \<Rightarrow> [] | Some xs \<Rightarrow> xs) pt lo lo g"
  using assms by (cases pt) (auto simp: opt_filled_def filled_refl split: if_splits)

lemma opt_filled_skip:
  assumes "opt_filled used xs0 p lo hi f" "lo \<le> hi" "0 \<le> hi"
    and "used \<Longrightarrow> hi < int (length xs0)" and "used \<Longrightarrow> f hi = xs0 ! nat hi"
  shows "opt_filled used xs0 p lo (hi + 1) f"
proof (cases used)
  case False
  then show ?thesis using assms(1) by (simp add: opt_filled_def)
next
  case True
  with assms(1) obtain xs where p: "p = Some xs" and fl: "filled xs0 xs lo hi f"
    by (cases p) (simp_all add: opt_filled_def)
  show ?thesis
    using filled_skip [OF fl assms(2,3) assms(4) [OF True] assms(5) [OF True]] True p
    by (simp add: opt_filled_def)
qed

lemma opt_filled_nth:
  assumes "opt_filled True xs0 pt lo hi f" "0 \<le> p" "p < int (length xs0)"
  shows "(case pt of None \<Rightarrow> [] | Some xs \<Rightarrow> xs) ! nat p = (if lo \<le> p \<and> p < hi then f p else xs0 ! nat p)"
    and "length (case pt of None \<Rightarrow> [] | Some xs \<Rightarrow> xs) = length xs0"
  using assms by (cases pt; simp add: opt_filled_def filled_def)+

lemma coo_cands_Suc:
  assumes "0 \<le> i"
  shows "coo_cands op coo ufeat efeat dim (i + 1) p
         = coo_cands op coo ufeat efeat dim i p
           @ (if coo_hits coo dim p i
              then [(coo_row coo ! nat i, eid_of (coo_data coo) i,
                     coo_val op coo ufeat efeat dim (p - coo_col coo ! nat i * dim) i)]
              else [])"
proof -
  have "[0 .. i + 1 - 1] = [0 .. i - 1] @ [i]" using assms by (simp add: upto_rec2)
  then show ?thesis by (simp add: coo_cands_def)
qed

lemma coo_cmp_cell_Suc:
  assumes "0 \<le> i"
  shows "coo_cmp_cell L op cmp coo ufeat efeat dim xs0 ys0 (i + 1) p
         = (if coo_hits coo dim p i
            then cmp_step op cmp
                   (coo_row coo ! nat i, eid_of (coo_data coo) i,
                    coo_val op coo ufeat efeat dim (p - coo_col coo ! nat i * dim) i)
                   (coo_cmp_cell L op cmp coo ufeat efeat dim xs0 ys0 i p)
            else coo_cmp_cell L op cmp coo ufeat efeat dim xs0 ys0 i p)"
  by (simp add: coo_cmp_cell_def coo_cands_Suc [OF assms])

lemma fill_loop:
  assumes "0 \<le> n" "n \<le> int (length xs)"
  shows "\<exists>res. for_loop 0 n (\<lambda>i obuf. wr obuf i z) xs = Inr res \<and> filled xs res 0 n (\<lambda>p. z)"
proof (rule for_loop_rule [where I = "\<lambda>i s. filled xs s 0 i (\<lambda>p. z)"])
  show "filled xs xs 0 0 (\<lambda>p. z)" by (rule filled_refl)
  show "0 \<le> n" by (rule assms(1))
next
  fix j t assume j: "0 \<le> j" "j < n" and t: "filled xs t 0 j (\<lambda>p. z)"
  have "j < int (length xs)" using j assms(2) by simp
  from filled_step [OF t j(1) j(1) this refl]
  show "\<exists>t'. wr t j z = Inr t' \<and> filled xs t' 0 (j + 1) (\<lambda>p. z)" by blast
qed

lemma filled_self: "filled xs xs lo hi (\<lambda>p. xs ! nat p)"
  by (auto simp: filled_def)

lemma SpMMCmpCoo_filled:
  fixes ufeat efeat :: "('a :: {semiring_0, linorder}) NDArray option"
  assumes wf: "coo_wf coo"
    and lhs: "operand_ok (use_lhs op) ufeat (feat_dim (nd_shape out)) (coo_row coo)"
    and rhs: "operand_ok (use_rhs op) efeat (feat_dim (nd_shape out))
                (edge_ids (coo_data coo) (length (coo_row coo)))"
    and dim: "0 \<le> feat_dim (nd_shape out)"
    and tg: "targets_ok (coo_col coo) (feat_dim (nd_shape out)) (int (length (nd_data out)))"
    and numel: "int (length (nd_data out)) = Numel out"
    and au: "arg_ok (use_lhs op) argu (int (length (nd_data out)))"
    and ae: "arg_ok (use_rhs op) arge (int (length (nd_data out)))"
  shows "\<exists>res rx rw. SpMMCmpCoo L op cmp coo ufeat efeat out argu arge = Inr (res, rx, rw)
           \<and> filled (nd_data out) res 0 (int (length (nd_data out)))
               (\<lambda>p. fst (coo_cmp_cell L op cmp coo ufeat efeat (feat_dim (nd_shape out))
                      (feat argu) (feat arge) (int (length (coo_row coo))) p))
           \<and> opt_filled (use_lhs op) (feat argu) rx 0 (int (length (nd_data out)))
               (\<lambda>p. fst (snd (coo_cmp_cell L op cmp coo ufeat efeat (feat_dim (nd_shape out))
                      (feat argu) (feat arge) (int (length (coo_row coo))) p)))
           \<and> opt_filled (use_rhs op) (feat arge) rw 0 (int (length (nd_data out)))
               (\<lambda>p. snd (snd (coo_cmp_cell L op cmp coo ufeat efeat (feat_dim (nd_shape out))
                      (feat argu) (feat arge) (int (length (coo_row coo))) p)))"
proof -
  define dim where "dim = feat_dim (nd_shape out)"
  define X where "X = (if use_lhs op then Ptr (feat ufeat) 0 else nullptr)"
  define W where "W = (if use_rhs op then Ptr (feat efeat) 0 else nullptr)"
  define nnz where "nnz = int (length (coo_row coo))"
  define len where "len = int (length (nd_data out))"
  define z where "z = Cmp_zero L cmp"
  define C where "C = coo_cmp_cell L op cmp coo ufeat efeat dim (feat argu) (feat arge)"
  define I where "I = (\<lambda>i (st :: 'a list \<times> int list option \<times> int list option).
     filled (nd_data out) (fst st) 0 len (\<lambda>p. fst (C i p))
     \<and> opt_filled (use_lhs op) (feat argu) (fst (snd st)) 0 len (\<lambda>p. fst (snd (C i p)))
     \<and> opt_filled (use_rhs op) (feat arge) (snd (snd st)) 0 len (\<lambda>p. snd (snd (C i p))))"
  let ?kbody = "\<lambda>rid cid eid k (obuf, argX, argW).
               bind (SpMM_val op X W dim rid eid k) (\<lambda>val.
               bind (rd obuf (cid * dim + k)) (\<lambda>cur.
                 if Cmp_Call cmp cur val
                 then bind (wr obuf (cid * dim + k) val) (\<lambda>obuf.
                      bind (arg_write (use_lhs op) argX (cid * dim + k) rid) (\<lambda>argX.
                      bind (arg_write (use_rhs op) argW (cid * dim + k) eid) (\<lambda>argW.
                        Inr (obuf, argX, argW))))
                 else Inr (obuf, argX, argW)))"
  let ?body = "\<lambda>i st.
          bind (rd (coo_row coo) i) (\<lambda>rid.
          bind (rd (coo_col coo) i) (\<lambda>cid.
          bind (edge_id (coo_data coo) i) (\<lambda>eid.
          for_loop 0 dim
            (\<lambda>k (obuf, argX, argW).
               bind (SpMM_val op X W dim rid eid k) (\<lambda>val.
               bind (rd obuf (cid * dim + k)) (\<lambda>cur.
                 if Cmp_Call cmp cur val
                 then bind (wr obuf (cid * dim + k) val) (\<lambda>obuf.
                      bind (arg_write (use_lhs op) argX (cid * dim + k) rid) (\<lambda>argX.
                      bind (arg_write (use_rhs op) argW (cid * dim + k) eid) (\<lambda>argW.
                        Inr (obuf, argX, argW))))
                 else Inr (obuf, argX, argW))))
            st)))"
  have d0: "0 \<le> dim" using dim by (simp add: dim_def)
  have lc: "length (coo_col coo) = length (coo_row coo)" using wf by (simp add: coo_wf_def)
  have lenu: "use_lhs op \<Longrightarrow> len \<le> int (length (feat argu))"
    using au arg_ok_len [of argu len] by (simp add: len_def)
  have lene: "use_rhs op \<Longrightarrow> len \<le> int (length (feat arge))"
    using ae arg_ok_len [of arge len] by (simp add: len_def)
  have step: "\<exists>t'. ?body i t = Inr t' \<and> I (i + 1) t'"
    if i: "0 \<le> i" "i < nnz" and t: "I i t" for i t
  proof -
    define cid where "cid = coo_col coo ! nat i"
    define rid where "rid = coo_row coo ! nat i"
    define eid where "eid = eid_of (coo_data coo) i"
    define lo where "lo = cid * dim"
    obtain Ot Xt Wt where td: "t = (Ot, Xt, Wt)" by (cases t)
    define xt where "xt = (case Xt of None \<Rightarrow> [] | Some xs \<Rightarrow> xs)"
    define wt where "wt = (case Wt of None \<Rightarrow> [] | Some xs \<Rightarrow> xs)"
    note ops = coo_operands [OF wf lhs [folded dim_def] rhs [folded dim_def] i(1) i(2) [unfolded nnz_def]]
    have t1: "filled (nd_data out) Ot 0 len (\<lambda>p. fst (C i p))"
      and t2: "opt_filled (use_lhs op) (feat argu) Xt 0 len (\<lambda>p. fst (snd (C i p)))"
      and t3: "opt_filled (use_rhs op) (feat arge) Wt 0 len (\<lambda>p. snd (snd (C i p)))"
      using t by (simp_all add: I_def td)
    have lOt: "int (length Ot) = len" using t1 by (simp add: filled_def len_def)
    have Otv: "Ot ! nat p = fst (C i p)" if "0 \<le> p" "p < len" for p
      using t1 that by (simp add: filled_def len_def)
    have xtv: "xt ! nat p = fst (snd (C i p))" "p < int (length xt)"
      if "use_lhs op" "0 \<le> p" "p < len" for p
      using opt_filled_nth [of "feat argu" Xt 0 len _ p] t2 that lenu
      by (simp_all add: xt_def)
    have wtv: "wt ! nat p = snd (snd (C i p))" "p < int (length wt)"
      if "use_rhs op" "0 \<le> p" "p < len" for p
      using opt_filled_nth [of "feat arge" Wt 0 len _ p] t3 that lene
      by (simp_all add: wt_def)
    have Cout: "C (i + 1) p = C i p" if "\<not> (lo \<le> p \<and> p < lo + dim)" for p
      using that by (auto simp: C_def coo_cmp_cell_Suc [OF i(1)] coo_hits_def cid_def lo_def)
    have Cin: "C (i + 1) (lo + k)
                 = cmp_step op cmp (rid, eid, coo_val op coo ufeat efeat dim k i) (C i (lo + k))"
      if "0 \<le> k" "k < dim" for k
      using that
      by (auto simp: C_def coo_cmp_cell_Suc [OF i(1)] coo_hits_def cid_def lo_def rid_def eid_def)
    have hi: "lo + dim \<le> len"
    proof -
      have "cid \<in> set (coo_col coo)" using i lc by (simp add: cid_def nnz_def)
      then have "(cid + 1) * dim \<le> len"
        using tg by (simp add: targets_ok_def list_all_iff dim_def len_def)
      then show ?thesis by (simp add: lo_def algebra_simps)
    qed
    define J where "J = (\<lambda>k (st :: 'a list \<times> int list option \<times> int list option).
       filled Ot (fst st) lo (lo + k) (\<lambda>p. fst (C (i + 1) p))
       \<and> opt_filled (use_lhs op) xt (fst (snd st)) lo (lo + k) (\<lambda>p. fst (snd (C (i + 1) p)))
       \<and> opt_filled (use_rhs op) wt (snd (snd st)) lo (lo + k) (\<lambda>p. snd (snd (C (i + 1) p))))"
    have "\<exists>t'. for_loop 0 dim (?kbody rid cid eid) t = Inr t' \<and> J dim t'"
    proof (rule for_loop_rule [where I = J])
      show "J 0 t"
        using filled_refl [of Ot lo] opt_filled_start [OF t2, of lo] opt_filled_start [OF t3, of lo]
        by (simp add: J_def td xt_def wt_def)
      show "0 \<le> dim" by (rule d0)
    next
      fix k s assume k: "0 \<le> k" "k < dim" and s: "J k s"
      obtain obuf argX argW where sd: "s = (obuf, argX, argW)" by (cases s)
      have s1: "filled Ot obuf lo (lo + k) (\<lambda>p. fst (C (i + 1) p))"
        and s2: "opt_filled (use_lhs op) xt argX lo (lo + k) (\<lambda>p. fst (snd (C (i + 1) p)))"
        and s3: "opt_filled (use_rhs op) wt argW lo (lo + k) (\<lambda>p. snd (snd (C (i + 1) p)))"
        using s by (simp_all add: J_def sd)
      have p: "0 \<le> lo + k" "lo + k < len"
        using targets_ok_nth [OF tg [folded dim_def len_def], of i k] i k lc
        by (simp_all add: cid_def nnz_def lo_def)
      have pO: "lo + k < int (length Ot)" using p(2) lOt by simp
      have le: "lo \<le> lo + k" using k by simp
      obtain a x y where cv: "C i (lo + k) = (a, x, y)" by (cases "C i (lo + k)")
      define val where "val = coo_val op coo ufeat efeat dim k i"
      have cur: "rd obuf (lo + k) = Inr a"
        using filled_at [OF s1 p(1) pO] Otv [OF p] cv by simp
      have v: "SpMM_val op X W dim rid eid k = Inr val"
        unfolding X_def W_def rid_def eid_def val_def by (rule ops(4) [OF k])
      have Cn: "C (i + 1) (lo + k) = cmp_step op cmp (rid, eid, val) (a, x, y)"
        using Cin [OF k] cv by (simp add: val_def)
      show "\<exists>t'. ?kbody rid cid eid k s = Inr t' \<and> J (k + 1) t'"
      proof (cases "Cmp_Call cmp a val")
        case True
        have Cn': "C (i + 1) (lo + k)
                     = (val, if use_lhs op then rid else x, if use_rhs op then eid else y)"
          using Cn True by simp
        have w1: "wr obuf (lo + k) val = Inr (obuf[nat (lo + k) := val])"
          and f1: "filled Ot (obuf[nat (lo + k) := val]) lo (lo + k + 1) (\<lambda>p. fst (C (i + 1) p))"
          using filled_step [OF s1 le p(1) pO, of val] Cn' by simp_all
        obtain argX' where w2: "arg_write (use_lhs op) argX (lo + k) rid = Inr argX'"
          and f2: "opt_filled (use_lhs op) xt argX' lo (lo + k + 1) (\<lambda>p. fst (snd (C (i + 1) p)))"
        proof -
          have b: "use_lhs op \<Longrightarrow> lo + k < int (length xt)" using xtv(2) [OF _ p] by simp
          have e: "use_lhs op \<Longrightarrow> rid = fst (snd (C (i + 1) (lo + k)))" by (simp add: Cn')
          from arg_write_step [OF s2 le p(1) b e] that show ?thesis by blast
        qed
        obtain argW' where w3: "arg_write (use_rhs op) argW (lo + k) eid = Inr argW'"
          and f3: "opt_filled (use_rhs op) wt argW' lo (lo + k + 1) (\<lambda>p. snd (snd (C (i + 1) p)))"
        proof -
          have b: "use_rhs op \<Longrightarrow> lo + k < int (length wt)" using wtv(2) [OF _ p] by simp
          have e: "use_rhs op \<Longrightarrow> eid = snd (snd (C (i + 1) (lo + k)))" by (simp add: Cn')
          from arg_write_step [OF s3 le p(1) b e] that show ?thesis by blast
        qed
        have "?kbody rid cid eid k s = Inr (obuf[nat (lo + k) := val], argX', argW')"
          using True by (simp add: sd v cur [unfolded lo_def] w1 [unfolded lo_def]
              w2 [unfolded lo_def] w3 [unfolded lo_def] lo_def)
        moreover have "J (k + 1) (obuf[nat (lo + k) := val], argX', argW')"
          using f1 f2 f3 by (simp add: J_def add.assoc)
        ultimately show ?thesis by blast
      next
        case False
        have Cn': "C (i + 1) (lo + k) = (a, x, y)" using Cn False by simp
        have f1: "filled Ot obuf lo (lo + k + 1) (\<lambda>p. fst (C (i + 1) p))"
          using filled_skip [OF s1 le p(1) pO] Otv [OF p] cv Cn' by simp
        have f2: "opt_filled (use_lhs op) xt argX lo (lo + k + 1) (\<lambda>p. fst (snd (C (i + 1) p)))"
        proof (rule opt_filled_skip [OF s2 le p(1)])
          assume u: "use_lhs op"
          show "lo + k < int (length xt)" using xtv(2) [OF u p] .
          show "fst (snd (C (i + 1) (lo + k))) = xt ! nat (lo + k)"
            using xtv(1) [OF u p] cv Cn' by simp
        qed
        have f3: "opt_filled (use_rhs op) wt argW lo (lo + k + 1) (\<lambda>p. snd (snd (C (i + 1) p)))"
        proof (rule opt_filled_skip [OF s3 le p(1)])
          assume u: "use_rhs op"
          show "lo + k < int (length wt)" using wtv(2) [OF u p] .
          show "snd (snd (C (i + 1) (lo + k))) = wt ! nat (lo + k)"
            using wtv(1) [OF u p] cv Cn' by simp
        qed
        have "?kbody rid cid eid k s = Inr (obuf, argX, argW)"
          using False by (simp add: sd v cur [unfolded lo_def])
        moreover have "J (k + 1) (obuf, argX, argW)"
          using f1 f2 f3 by (simp add: J_def add.assoc)
        ultimately show ?thesis by blast
      qed
    qed
    then obtain t' where run: "for_loop 0 dim (?kbody rid cid eid) t = Inr t'" and Jt: "J dim t'"
      by blast
    obtain O' X' W' where t'd: "t' = (O', X', W')" by (cases t')
    have j1: "filled Ot O' lo (lo + dim) (\<lambda>p. fst (C (i + 1) p))"
      and j2: "opt_filled (use_lhs op) xt X' lo (lo + dim) (\<lambda>p. fst (snd (C (i + 1) p)))"
      and j3: "opt_filled (use_rhs op) wt W' lo (lo + dim) (\<lambda>p. snd (snd (C (i + 1) p)))"
      using Jt by (simp_all add: J_def t'd)
    have n1: "filled (nd_data out) O' 0 len (\<lambda>p. fst (C (i + 1) p))"
      by (rule filled_compose [OF t1 j1 hi]) (simp_all add: Cout)
    have n2: "opt_filled (use_lhs op) (feat argu) X' 0 len (\<lambda>p. fst (snd (C (i + 1) p)))"
      by (rule opt_filled_compose [OF t2 j2 [unfolded xt_def] hi]) (simp_all add: Cout)
    have n3: "opt_filled (use_rhs op) (feat arge) W' 0 len (\<lambda>p. snd (snd (C (i + 1) p)))"
      by (rule opt_filled_compose [OF t3 j3 [unfolded wt_def] hi]) (simp_all add: Cout)
    have "I (i + 1) t'" using n1 n2 n3 by (simp add: I_def t'd)
    then show ?thesis
      using run [unfolded cid_def rid_def eid_def] by (simp add: ops(1,2,3))
  qed
  from fill_loop [of "Numel out" "nd_data out" z] numel
  obtain O0 where init: "for_loop 0 (Numel out) (\<lambda>i obuf. wr obuf i z) (nd_data out) = Inr O0"
    and fO0: "filled (nd_data out) O0 0 len (\<lambda>p. z)"
    by (auto simp: len_def)
  have C0: "C 0 p = (z, feat argu ! nat p, feat arge ! nat p)" for p
    by (simp add: C_def coo_cmp_cell_def coo_cands_def z_def)
  have "\<exists>st. for_loop 0 nnz ?body (O0, if use_lhs op then Some (feat argu) else None,
                                    if use_rhs op then Some (feat arge) else None) = Inr st
              \<and> I nnz st"
  proof (rule for_loop_rule [where I = I])
    show "I 0 (O0, if use_lhs op then Some (feat argu) else None,
                  if use_rhs op then Some (feat arge) else None)"
      using fO0 filled_self [of "feat argu" 0 len] filled_self [of "feat arge" 0 len]
      by (simp add: I_def C0 opt_filled_def)
    show "0 \<le> nnz" by (simp add: nnz_def)
  next
    fix i t assume "0 \<le> i" "i < nnz" "I i t"
    then show "\<exists>t'. ?body i t = Inr t' \<and> I (i + 1) t'" by (rule step)
  qed
  moreover have "SpMMCmpCoo L op cmp coo ufeat efeat out argu arge
      = for_loop 0 nnz ?body (O0, if use_lhs op then Some (feat argu) else None,
                                    if use_rhs op then Some (feat arge) else None)"
    unfolding SpMMCmpCoo_def operand_ptr_ok [OF lhs] operand_ptr_ok [OF rhs]
      arg_ptr_ok [OF au] arg_ptr_ok [OF ae] Let_def X_def W_def dim_def nnz_def
    by (simp add: init [unfolded z_def])
  ultimately obtain st where st: "SpMMCmpCoo L op cmp coo ufeat efeat out argu arge = Inr st"
    and Ist: "I nnz st" by auto
  obtain res rx rw where sd: "st = (res, rx, rw)" by (cases st)
  show ?thesis
    using st Ist unfolding sd I_def C_def dim_def nnz_def len_def by auto
qed

subsection \<open>The cells of the compare kernels\<close>

lemma SpMMCmpCoo_cells:
  fixes ufeat efeat :: "('a :: {semiring_0, linorder}) NDArray option"
  assumes wf: "coo_wf coo"
    and lhs: "operand_ok (use_lhs op) ufeat (feat_dim (nd_shape out)) (coo_row coo)"
    and rhs: "operand_ok (use_rhs op) efeat (feat_dim (nd_shape out))
                (edge_ids (coo_data coo) (length (coo_row coo)))"
    and dim: "0 \<le> feat_dim (nd_shape out)"
    and tg: "targets_ok (coo_col coo) (feat_dim (nd_shape out)) (int (length (nd_data out)))"
    and numel: "int (length (nd_data out)) = Numel out"
    and au: "arg_ok (use_lhs op) argu (int (length (nd_data out)))"
    and ae: "arg_ok (use_rhs op) arge (int (length (nd_data out)))"
  shows "\<exists>res ax aw.
           SpMMCmpCoo L op cmp coo ufeat efeat out argu arge
             = Inr (res, if use_lhs op then Some ax else None, if use_rhs op then Some aw else None)
           \<and> length res = length (nd_data out)
           \<and> (use_lhs op \<longrightarrow> length ax = length (feat argu))
           \<and> (use_rhs op \<longrightarrow> length aw = length (feat arge))
           \<and> (\<forall>p. 0 \<le> p \<and> p < int (length (nd_data out)) \<longrightarrow>
                 res ! nat p = fst (coo_cmp_cell L op cmp coo ufeat efeat (feat_dim (nd_shape out))
                                     (feat argu) (feat arge) (int (length (coo_row coo))) p)
                 \<and> (use_lhs op \<longrightarrow> ax ! nat p
                       = fst (snd (coo_cmp_cell L op cmp coo ufeat efeat (feat_dim (nd_shape out))
                                     (feat argu) (feat arge) (int (length (coo_row coo))) p)))
                 \<and> (use_rhs op \<longrightarrow> aw ! nat p
                       = snd (snd (coo_cmp_cell L op cmp coo ufeat efeat (feat_dim (nd_shape out))
                                     (feat argu) (feat arge) (int (length (coo_row coo))) p))))
           \<and> (\<forall>p. int (length (nd_data out)) \<le> p \<longrightarrow>
                 (use_lhs op \<and> p < int (length (feat argu)) \<longrightarrow> ax ! nat p = feat argu ! nat p)
                 \<and> (use_rhs op \<and> p < int (length (feat arge)) \<longrightarrow> aw ! nat p = feat arge ! nat p))"
proof -
  define len where "len = int (length (nd_data out))"
  define C where "C = coo_cmp_cell L op cmp coo ufeat efeat (feat_dim (nd_shape out))
                        (feat argu) (feat arge) (int (length (coo_row coo)))"
  from SpMMCmpCoo_filled [OF assms, of L cmp]
  obtain res rx rw where run: "SpMMCmpCoo L op cmp coo ufeat efeat out argu arge = Inr (res, rx, rw)"
    and f1: "filled (nd_data out) res 0 len (\<lambda>p. fst (C p))"
    and f2: "opt_filled (use_lhs op) (feat argu) rx 0 len (\<lambda>p. fst (snd (C p)))"
    and f3: "opt_filled (use_rhs op) (feat arge) rw 0 len (\<lambda>p. snd (snd (C p)))"
    unfolding len_def C_def by blast
  from opt_filled_cases [OF f2]
  obtain ax where rx: "rx = (if use_lhs op then Some ax else None)"
    and fx: "use_lhs op \<Longrightarrow> filled (feat argu) ax 0 len (\<lambda>p. fst (snd (C p)))"
    by blast
  from opt_filled_cases [OF f3]
  obtain aw where rw: "rw = (if use_rhs op then Some aw else None)"
    and fw: "use_rhs op \<Longrightarrow> filled (feat arge) aw 0 len (\<lambda>p. snd (snd (C p)))"
    by blast
  have lenu: "use_lhs op \<Longrightarrow> len \<le> int (length (feat argu))"
    using au arg_ok_len [of argu len] by (simp add: len_def)
  have lene: "use_rhs op \<Longrightarrow> len \<le> int (length (feat arge))"
    using ae arg_ok_len [of arge len] by (simp add: len_def)
  have a: "SpMMCmpCoo L op cmp coo ufeat efeat out argu arge
             = Inr (res, if use_lhs op then Some ax else None, if use_rhs op then Some aw else None)"
    using run rx rw by simp
  have b: "length res = length (nd_data out)" using f1 by (simp add: filled_def)
  have c: "use_lhs op \<longrightarrow> length ax = length (feat argu)" using fx by (simp add: filled_def)
  have d: "use_rhs op \<longrightarrow> length aw = length (feat arge)" using fw by (simp add: filled_def)
  have e: "\<forall>p. 0 \<le> p \<and> p < len \<longrightarrow>
                 res ! nat p = fst (C p)
                 \<and> (use_lhs op \<longrightarrow> ax ! nat p = fst (snd (C p)))
                 \<and> (use_rhs op \<longrightarrow> aw ! nat p = snd (snd (C p)))"
  proof (intro allI impI conjI)
    fix p assume p: "0 \<le> p \<and> p < len"
    show "res ! nat p = fst (C p)" using f1 p by (simp add: filled_def len_def)
    show "ax ! nat p = fst (snd (C p))" if "use_lhs op"
      using fx [OF that] lenu [OF that] p by (simp add: filled_def)
    show "aw ! nat p = snd (snd (C p))" if "use_rhs op"
      using fw [OF that] lene [OF that] p by (simp add: filled_def)
  qed
  have g: "\<forall>p. len \<le> p \<longrightarrow>
                 (use_lhs op \<and> p < int (length (feat argu)) \<longrightarrow> ax ! nat p = feat argu ! nat p)
                 \<and> (use_rhs op \<and> p < int (length (feat arge)) \<longrightarrow> aw ! nat p = feat arge ! nat p)"
  proof (intro allI impI conjI)
    fix p assume p: "len \<le> p"
    have l0: "0 \<le> len" by (simp add: len_def)
    show "ax ! nat p = feat argu ! nat p" if "use_lhs op \<and> p < int (length (feat argu))"
      using fx that p l0 by (simp add: filled_def)
    show "aw ! nat p = feat arge ! nat p" if "use_rhs op \<and> p < int (length (feat arge))"
      using fw that p l0 by (simp add: filled_def)
  qed
  show ?thesis
    using a b c d e g unfolding len_def C_def by blast
qed

lemma SpMMCmpCsr_cells:
  fixes ufeat efeat :: "('a :: {semiring_0, linorder}) NDArray option"
  assumes wf: "csr_wf csr"
    and lhs: "operand_ok (use_lhs op) ufeat (feat_dim (nd_shape out)) (csr_indices csr)"
    and rhs: "operand_ok (use_rhs op) efeat (feat_dim (nd_shape out))
                (edge_ids (csr_data csr) (length (csr_indices csr)))"
    and dim: "0 \<le> feat_dim (nd_shape out)"
    and out: "csr_num_rows csr * feat_dim (nd_shape out) \<le> int (length (nd_data out))"
    and au: "arg_ok (use_lhs op) argu (csr_num_rows csr * feat_dim (nd_shape out))"
    and ae: "arg_ok (use_rhs op) arge (csr_num_rows csr * feat_dim (nd_shape out))"
  shows "\<exists>res ax aw.
           SpMMCmpCsr L op cmp csr ufeat efeat out argu arge
             = Inr (res, if use_lhs op then Some ax else None, if use_rhs op then Some aw else None)
           \<and> length res = length (nd_data out)
           \<and> (\<forall>r k. 0 \<le> r \<and> r < csr_num_rows csr \<and> 0 \<le> k \<and> k < feat_dim (nd_shape out) \<longrightarrow>
                 res ! nat (r * feat_dim (nd_shape out) + k)
                   = fst (csr_cmp_cell L op cmp csr ufeat efeat (feat_dim (nd_shape out)) r k)
                 \<and> (use_lhs op \<longrightarrow> ax ! nat (r * feat_dim (nd_shape out) + k)
                       = fst (snd (csr_cmp_cell L op cmp csr ufeat efeat (feat_dim (nd_shape out)) r k)))
                 \<and> (use_rhs op \<longrightarrow> aw ! nat (r * feat_dim (nd_shape out) + k)
                       = snd (snd (csr_cmp_cell L op cmp csr ufeat efeat (feat_dim (nd_shape out)) r k))))"
proof -
  define dim where "dim = feat_dim (nd_shape out)"
  define n where "n = csr_num_rows csr"
  define C where "C = (\<lambda>p. csr_cmp_cell L op cmp csr ufeat efeat dim (p div dim) (p mod dim))"
  from SpMMCmpCsr_filled [OF assms, of L cmp]
  obtain res rx rw where run: "SpMMCmpCsr L op cmp csr ufeat efeat out argu arge = Inr (res, rx, rw)"
    and f1: "filled (nd_data out) res 0 (n * dim) (\<lambda>p. fst (C p))"
    and f2: "opt_filled (use_lhs op) (feat argu) rx 0 (n * dim) (\<lambda>p. fst (snd (C p)))"
    and f3: "opt_filled (use_rhs op) (feat arge) rw 0 (n * dim) (\<lambda>p. snd (snd (C p)))"
    unfolding dim_def n_def C_def by blast
  from opt_filled_cases [OF f2]
  obtain ax where rx: "rx = (if use_lhs op then Some ax else None)"
    and fx: "use_lhs op \<Longrightarrow> filled (feat argu) ax 0 (n * dim) (\<lambda>p. fst (snd (C p)))"
    by blast
  from opt_filled_cases [OF f3]
  obtain aw where rw: "rw = (if use_rhs op then Some aw else None)"
    and fw: "use_rhs op \<Longrightarrow> filled (feat arge) aw 0 (n * dim) (\<lambda>p. snd (snd (C p)))"
    by blast
  have lenu: "use_lhs op \<Longrightarrow> n * dim \<le> int (length (feat argu))"
    using au arg_ok_len [of argu "n * dim"] by (simp add: n_def dim_def)
  have lene: "use_rhs op \<Longrightarrow> n * dim \<le> int (length (feat arge))"
    using ae arg_ok_len [of arge "n * dim"] by (simp add: n_def dim_def)
  have a: "SpMMCmpCsr L op cmp csr ufeat efeat out argu arge
             = Inr (res, if use_lhs op then Some ax else None, if use_rhs op then Some aw else None)"
    using run rx rw by simp
  have b: "length res = length (nd_data out)" using f1 by (simp add: filled_def)
  have e: "\<forall>r k. 0 \<le> r \<and> r < n \<and> 0 \<le> k \<and> k < dim \<longrightarrow>
                 res ! nat (r * dim + k) = fst (csr_cmp_cell L op cmp csr ufeat efeat dim r k)
                 \<and> (use_lhs op \<longrightarrow> ax ! nat (r * dim + k)
                       = fst (snd (csr_cmp_cell L op cmp csr ufeat efeat dim r k)))
                 \<and> (use_rhs op \<longrightarrow> aw ! nat (r * dim + k)
                       = snd (snd (csr_cmp_cell L op cmp csr ufeat efeat dim r k)))"
  proof (intro allI impI)
    fix r k assume rk: "0 \<le> r \<and> r < n \<and> 0 \<le> k \<and> k < dim"
    then have r: "0 \<le> r" "r < n" and k: "0 \<le> k" "k < dim" by simp_all
    have rn: "(r + 1) * dim \<le> n * dim" using r k by (intro mult_right_mono) simp_all
    have p: "0 \<le> r * dim + k" "r * dim + k < n * dim"
      using flat_bounds [of r k dim "n * dim"] r k rn by simp_all
    have Cp: "C (r * dim + k) = csr_cmp_cell L op cmp csr ufeat efeat dim r k"
      using flat_div_mod [OF k, of r] by (simp add: C_def)
    have pl: "r * dim + k < int (length (nd_data out))" using p(2) out by (simp add: n_def dim_def)
    have 1: "res ! nat (r * dim + k) = fst (csr_cmp_cell L op cmp csr ufeat efeat dim r k)"
      using f1 p pl Cp by (simp add: filled_def)
    have 2: "ax ! nat (r * dim + k) = fst (snd (csr_cmp_cell L op cmp csr ufeat efeat dim r k))"
      if "use_lhs op"
      using fx [OF that] lenu [OF that] p Cp by (simp add: filled_def)
    have 3: "aw ! nat (r * dim + k) = snd (snd (csr_cmp_cell L op cmp csr ufeat efeat dim r k))"
      if "use_rhs op"
      using fw [OF that] lene [OF that] p Cp by (simp add: filled_def)
    show "res ! nat (r * dim + k) = fst (csr_cmp_cell L op cmp csr ufeat efeat dim r k)
                 \<and> (use_lhs op \<longrightarrow> ax ! nat (r * dim + k)
                       = fst (snd (csr_cmp_cell L op cmp csr ufeat efeat dim r k)))
                 \<and> (use_rhs op \<longrightarrow> aw ! nat (r * dim + k)
                       = snd (snd (csr_cmp_cell L op cmp csr ufeat efeat dim r k)))"
      using 1 2 3 by blast
  qed
  show ?thesis using a b e unfolding dim_def n_def by blast
qed

subsection \<open>The argument tensors of the COO compare kernel\<close>

lemma coo_cell_unreplaced:
  assumes "fst (coo_cmp_cell L op cmp coo ufeat efeat dim xs0 ys0 n p) = Cmp_zero L cmp"
  shows "coo_cmp_cell L op cmp coo ufeat efeat dim xs0 ys0 n p
           = (Cmp_zero L cmp, xs0 ! nat p, ys0 ! nat p)"
proof -
  obtain a x y where c: "coo_cmp_cell L op cmp coo ufeat efeat dim xs0 ys0 n p = (a, x, y)"
    by (cases "coo_cmp_cell L op cmp coo ufeat efeat dim xs0 ys0 n p")
  have "cmp_post op cmp (Cmp_zero L cmp) (xs0 ! nat p) (ys0 ! nat p)
          (coo_cands op coo ufeat efeat dim n p) (a, x, y)"
    using cmp_post_fold [of op cmp "Cmp_zero L cmp" "xs0 ! nat p" "ys0 ! nat p"
        "coo_cands op coo ufeat efeat dim n p"] c
    by (simp add: coo_cmp_cell_def)
  moreover have "a = Cmp_zero L cmp" using assms c by simp
  ultimately show ?thesis
    using c Cmp_Call_irrefl [of cmp "Cmp_zero L cmp"] by (auto simp: cmp_post_def)
qed

lemma coo_cell_no_hit:
  assumes lc: "length (coo_col coo) = length (coo_row coo)"
    and k: "0 \<le> k" "k < dim" and c: "c \<notin> set (coo_col coo)"
  shows "coo_cmp_cell L op cmp coo ufeat efeat dim xs0 ys0 (int (length (coo_row coo))) (c * dim + k)
           = (Cmp_zero L cmp, xs0 ! nat (c * dim + k), ys0 ! nat (c * dim + k))"
proof -
  have "\<not> coo_hits coo dim (c * dim + k) i" if i: "i \<in> set [0 .. int (length (coo_row coo)) - 1]" for i
  proof
    assume h: "coo_hits coo dim (c * dim + k) i"
    then have "(c * dim + k) div dim = coo_col coo ! nat i"
      using flat_row_unique [of "coo_col coo ! nat i" dim "c * dim + k"] by (simp add: coo_hits_def)
    then have "coo_col coo ! nat i = c" using flat_div_mod(1) [OF k, of c] by simp
    moreover have "nat i < length (coo_col coo)" using i lc by auto
    ultimately show False using c nth_mem by blast
  qed
  then have "filter (coo_hits coo dim (c * dim + k)) [0 .. int (length (coo_row coo)) - 1] = []"
    by (simp add: filter_empty_conv)
  then show ?thesis by (simp add: coo_cmp_cell_def coo_cands_def)
qed

lemma csr_cell_empty:
  assumes "csr_indptr csr ! nat r = csr_indptr csr ! nat (r + 1)"
  shows "csr_cmp_cell L op cmp csr ufeat efeat dim r k = (Cmp_zero L cmp, 0, 0)"
  using assms by (simp add: csr_cmp_cell_def csr_cands_def)

text \<open>
  C10. \<open>SpMMCmpCoo\<close> sets every element of the value output to the identity before the
  scatter and initialises no argument tensor; an argument entry is written only together with
  a replacement, so a cell whose value is still the identity, and in particular every cell of
  a column with no incident nonzero, has the argument entries the caller supplied. For a row
  with no nonzeros \<open>SpMMCmpCsr\<close> writes the identity and the argument 0 (the argument tensors
  in question are those of the operands the value operator uses: the kernels hold no pointer
  into the other ones).
\<close>

theorem SpMMCmpCoo_argument_frame:
  fixes ufeat efeat :: "('a :: {semiring_0, linorder}) NDArray option"
  assumes wf: "coo_wf coo"
    and lhs: "operand_ok (use_lhs op) ufeat (feat_dim (nd_shape out)) (coo_row coo)"
    and rhs: "operand_ok (use_rhs op) efeat (feat_dim (nd_shape out))
                (edge_ids (coo_data coo) (length (coo_row coo)))"
    and dim: "0 \<le> feat_dim (nd_shape out)"
    and tg: "targets_ok (coo_col coo) (feat_dim (nd_shape out)) (int (length (nd_data out)))"
    and numel: "int (length (nd_data out)) = Numel out"
    and au: "arg_ok (use_lhs op) argu (int (length (nd_data out)))"
    and ae: "arg_ok (use_rhs op) arge (int (length (nd_data out)))"
    and cwf: "csr_wf csr"
    and clhs: "operand_ok (use_lhs op) ufeat (feat_dim (nd_shape out)) (csr_indices csr)"
    and crhs: "operand_ok (use_rhs op) efeat (feat_dim (nd_shape out))
                (edge_ids (csr_data csr) (length (csr_indices csr)))"
    and cout: "csr_num_rows csr * feat_dim (nd_shape out) \<le> int (length (nd_data out))"
  shows "(\<exists>res ax aw.
            SpMMCmpCoo L op cmp coo ufeat efeat out argu arge
              = Inr (res, if use_lhs op then Some ax else None, if use_rhs op then Some aw else None)
            \<and> (\<forall>p. 0 \<le> p \<and> p < int (length (nd_data out)) \<and> res ! nat p = Cmp_zero L cmp \<longrightarrow>
                  (use_lhs op \<longrightarrow> ax ! nat p = feat argu ! nat p)
                  \<and> (use_rhs op \<longrightarrow> aw ! nat p = feat arge ! nat p))
            \<and> (\<forall>c k. 0 \<le> c \<and> (c + 1) * feat_dim (nd_shape out) \<le> int (length (nd_data out))
                      \<and> 0 \<le> k \<and> k < feat_dim (nd_shape out) \<and> c \<notin> set (coo_col coo) \<longrightarrow>
                  res ! nat (c * feat_dim (nd_shape out) + k) = Cmp_zero L cmp
                  \<and> (use_lhs op \<longrightarrow> ax ! nat (c * feat_dim (nd_shape out) + k)
                                      = feat argu ! nat (c * feat_dim (nd_shape out) + k))
                  \<and> (use_rhs op \<longrightarrow> aw ! nat (c * feat_dim (nd_shape out) + k)
                                      = feat arge ! nat (c * feat_dim (nd_shape out) + k))))
         \<and> (\<exists>res ax aw.
            SpMMCmpCsr L op cmp csr ufeat efeat out argu arge
              = Inr (res, if use_lhs op then Some ax else None, if use_rhs op then Some aw else None)
            \<and> (\<forall>r k. 0 \<le> r \<and> r < csr_num_rows csr \<and> 0 \<le> k \<and> k < feat_dim (nd_shape out)
                      \<and> csr_indptr csr ! nat r = csr_indptr csr ! nat (r + 1) \<longrightarrow>
                  res ! nat (r * feat_dim (nd_shape out) + k) = Cmp_zero L cmp
                  \<and> (use_lhs op \<longrightarrow> ax ! nat (r * feat_dim (nd_shape out) + k) = 0)
                  \<and> (use_rhs op \<longrightarrow> aw ! nat (r * feat_dim (nd_shape out) + k) = 0)))"
proof (rule conjI)
  define dm where "dm = feat_dim (nd_shape out)"
  define len where "len = int (length (nd_data out))"
  define z where "z = Cmp_zero L cmp"
  define C where "C = coo_cmp_cell L op cmp coo ufeat efeat dm (feat argu) (feat arge)
                        (int (length (coo_row coo)))"
  have lc: "length (coo_col coo) = length (coo_row coo)" using wf by (simp add: coo_wf_def)
  from SpMMCmpCoo_cells [OF wf lhs rhs dim tg numel au ae, of L cmp]
  obtain res ax aw where run: "SpMMCmpCoo L op cmp coo ufeat efeat out argu arge
              = Inr (res, if use_lhs op then Some ax else None, if use_rhs op then Some aw else None)"
    and cells: "\<forall>p. 0 \<le> p \<and> p < len \<longrightarrow>
                 res ! nat p = fst (C p)
                 \<and> (use_lhs op \<longrightarrow> ax ! nat p = fst (snd (C p)))
                 \<and> (use_rhs op \<longrightarrow> aw ! nat p = snd (snd (C p)))"
    unfolding dm_def len_def C_def by blast
  have A: "\<forall>p. 0 \<le> p \<and> p < len \<and> res ! nat p = z \<longrightarrow>
                  (use_lhs op \<longrightarrow> ax ! nat p = feat argu ! nat p)
                  \<and> (use_rhs op \<longrightarrow> aw ! nat p = feat arge ! nat p)"
  proof (intro allI impI)
    fix p assume p: "0 \<le> p \<and> p < len \<and> res ! nat p = z"
    from cells p have cp: "res ! nat p = fst (C p)"
      "use_lhs op \<longrightarrow> ax ! nat p = fst (snd (C p))"
      "use_rhs op \<longrightarrow> aw ! nat p = snd (snd (C p))" by blast+
    have "fst (C p) = z" using cp(1) p by simp
    then have "C p = (z, feat argu ! nat p, feat arge ! nat p)"
      unfolding C_def z_def by (rule coo_cell_unreplaced)
    then show "(use_lhs op \<longrightarrow> ax ! nat p = feat argu ! nat p)
                  \<and> (use_rhs op \<longrightarrow> aw ! nat p = feat arge ! nat p)"
      using cp by simp
  qed
  have B: "\<forall>c k. 0 \<le> c \<and> (c + 1) * dm \<le> len \<and> 0 \<le> k \<and> k < dm \<and> c \<notin> set (coo_col coo) \<longrightarrow>
                  res ! nat (c * dm + k) = z
                  \<and> (use_lhs op \<longrightarrow> ax ! nat (c * dm + k) = feat argu ! nat (c * dm + k))
                  \<and> (use_rhs op \<longrightarrow> aw ! nat (c * dm + k) = feat arge ! nat (c * dm + k))"
  proof (intro allI impI)
    fix c k assume a: "0 \<le> c \<and> (c + 1) * dm \<le> len \<and> 0 \<le> k \<and> k < dm \<and> c \<notin> set (coo_col coo)"
    then have p: "0 \<le> c * dm + k" "c * dm + k < len"
      using flat_bounds [of c k dm len] by simp_all
    have "C (c * dm + k) = (z, feat argu ! nat (c * dm + k), feat arge ! nat (c * dm + k))"
      unfolding C_def z_def using a by (intro coo_cell_no_hit [OF lc]) simp_all
    moreover from cells p have "res ! nat (c * dm + k) = fst (C (c * dm + k))"
      "use_lhs op \<longrightarrow> ax ! nat (c * dm + k) = fst (snd (C (c * dm + k)))"
      "use_rhs op \<longrightarrow> aw ! nat (c * dm + k) = snd (snd (C (c * dm + k)))" by blast+
    ultimately show "res ! nat (c * dm + k) = z
                  \<and> (use_lhs op \<longrightarrow> ax ! nat (c * dm + k) = feat argu ! nat (c * dm + k))
                  \<and> (use_rhs op \<longrightarrow> aw ! nat (c * dm + k) = feat arge ! nat (c * dm + k))"
      by simp
  qed
  show "\<exists>res ax aw.
            SpMMCmpCoo L op cmp coo ufeat efeat out argu arge
              = Inr (res, if use_lhs op then Some ax else None, if use_rhs op then Some aw else None)
            \<and> (\<forall>p. 0 \<le> p \<and> p < int (length (nd_data out)) \<and> res ! nat p = Cmp_zero L cmp \<longrightarrow>
                  (use_lhs op \<longrightarrow> ax ! nat p = feat argu ! nat p)
                  \<and> (use_rhs op \<longrightarrow> aw ! nat p = feat arge ! nat p))
            \<and> (\<forall>c k. 0 \<le> c \<and> (c + 1) * feat_dim (nd_shape out) \<le> int (length (nd_data out))
                      \<and> 0 \<le> k \<and> k < feat_dim (nd_shape out) \<and> c \<notin> set (coo_col coo) \<longrightarrow>
                  res ! nat (c * feat_dim (nd_shape out) + k) = Cmp_zero L cmp
                  \<and> (use_lhs op \<longrightarrow> ax ! nat (c * feat_dim (nd_shape out) + k)
                                      = feat argu ! nat (c * feat_dim (nd_shape out) + k))
                  \<and> (use_rhs op \<longrightarrow> aw ! nat (c * feat_dim (nd_shape out) + k)
                                      = feat arge ! nat (c * feat_dim (nd_shape out) + k)))"
    using run A B unfolding dm_def len_def z_def by blast
next
  define dm where "dm = feat_dim (nd_shape out)"
  define z where "z = Cmp_zero L cmp"
  have cau: "arg_ok (use_lhs op) argu (csr_num_rows csr * feat_dim (nd_shape out))"
    using au cout by (cases argu) (auto simp: arg_ok_def)
  have cae: "arg_ok (use_rhs op) arge (csr_num_rows csr * feat_dim (nd_shape out))"
    using ae cout by (cases arge) (auto simp: arg_ok_def)
  from SpMMCmpCsr_cells [OF cwf clhs crhs dim cout cau cae, of L cmp]
  obtain res ax aw where run: "SpMMCmpCsr L op cmp csr ufeat efeat out argu arge
              = Inr (res, if use_lhs op then Some ax else None, if use_rhs op then Some aw else None)"
    and cells: "\<forall>r k. 0 \<le> r \<and> r < csr_num_rows csr \<and> 0 \<le> k \<and> k < dm \<longrightarrow>
                 res ! nat (r * dm + k) = fst (csr_cmp_cell L op cmp csr ufeat efeat dm r k)
                 \<and> (use_lhs op \<longrightarrow> ax ! nat (r * dm + k)
                       = fst (snd (csr_cmp_cell L op cmp csr ufeat efeat dm r k)))
                 \<and> (use_rhs op \<longrightarrow> aw ! nat (r * dm + k)
                       = snd (snd (csr_cmp_cell L op cmp csr ufeat efeat dm r k)))"
    unfolding dm_def by blast
  have "\<forall>r k. 0 \<le> r \<and> r < csr_num_rows csr \<and> 0 \<le> k \<and> k < dm
                      \<and> csr_indptr csr ! nat r = csr_indptr csr ! nat (r + 1) \<longrightarrow>
                  res ! nat (r * dm + k) = z
                  \<and> (use_lhs op \<longrightarrow> ax ! nat (r * dm + k) = 0)
                  \<and> (use_rhs op \<longrightarrow> aw ! nat (r * dm + k) = 0)"
  proof (intro allI impI)
    fix r k assume a: "0 \<le> r \<and> r < csr_num_rows csr \<and> 0 \<le> k \<and> k < dm
                      \<and> csr_indptr csr ! nat r = csr_indptr csr ! nat (r + 1)"
    then have "csr_cmp_cell L op cmp csr ufeat efeat dm r k = (z, 0, 0)"
      unfolding z_def by (intro csr_cell_empty) simp
    moreover from cells a
    have "res ! nat (r * dm + k) = fst (csr_cmp_cell L op cmp csr ufeat efeat dm r k)"
      "use_lhs op \<longrightarrow> ax ! nat (r * dm + k)
                       = fst (snd (csr_cmp_cell L op cmp csr ufeat efeat dm r k))"
      "use_rhs op \<longrightarrow> aw ! nat (r * dm + k)
                       = snd (snd (csr_cmp_cell L op cmp csr ufeat efeat dm r k))" by blast+
    ultimately show "res ! nat (r * dm + k) = z
                  \<and> (use_lhs op \<longrightarrow> ax ! nat (r * dm + k) = 0)
                  \<and> (use_rhs op \<longrightarrow> aw ! nat (r * dm + k) = 0)"
      by simp
  qed
  then show "\<exists>res ax aw.
            SpMMCmpCsr L op cmp csr ufeat efeat out argu arge
              = Inr (res, if use_lhs op then Some ax else None, if use_rhs op then Some aw else None)
            \<and> (\<forall>r k. 0 \<le> r \<and> r < csr_num_rows csr \<and> 0 \<le> k \<and> k < feat_dim (nd_shape out)
                      \<and> csr_indptr csr ! nat r = csr_indptr csr ! nat (r + 1) \<longrightarrow>
                  res ! nat (r * feat_dim (nd_shape out) + k) = Cmp_zero L cmp
                  \<and> (use_lhs op \<longrightarrow> ax ! nat (r * feat_dim (nd_shape out) + k) = 0)
                  \<and> (use_rhs op \<longrightarrow> aw ! nat (r * feat_dim (nd_shape out) + k) = 0))"
    using run unfolding dm_def z_def by blast
qed

theorem SpMMCmpCoo_argument_frame_witness:
  "coo_wf ex_coo
   \<and> operand_ok (use_lhs Mul) ex_ufeat (feat_dim (nd_shape ex_out)) (coo_row ex_coo)
   \<and> operand_ok (use_rhs Mul) ex_efeat (feat_dim (nd_shape ex_out))
       (edge_ids (coo_data ex_coo) (length (coo_row ex_coo)))
   \<and> 0 \<le> feat_dim (nd_shape ex_out)
   \<and> targets_ok (coo_col ex_coo) (feat_dim (nd_shape ex_out)) (int (length (nd_data ex_out)))
   \<and> int (length (nd_data ex_out)) = Numel ex_out
   \<and> arg_ok (use_lhs Mul) ex_arg (int (length (nd_data ex_out)))
   \<and> arg_ok (use_rhs Mul) ex_arg (int (length (nd_data ex_out)))
   \<and> csr_wf ex_csr
   \<and> operand_ok (use_lhs Mul) ex_ufeat (feat_dim (nd_shape ex_out)) (csr_indices ex_csr)
   \<and> operand_ok (use_rhs Mul) ex_efeat (feat_dim (nd_shape ex_out))
       (edge_ids (csr_data ex_csr) (length (csr_indices ex_csr)))
   \<and> csr_num_rows ex_csr * feat_dim (nd_shape ex_out) \<le> int (length (nd_data ex_out))
   \<and> SpMMCmpCoo ex_limits Mul Max_op ex_coo ex_ufeat ex_efeat ex_out ex_arg ex_arg
       = Inr ([250, 360, - 2147483648, - 2147483648, 30, 80],
              Some [2, 2, 7, 7, 0, 0], Some [2, 2, 7, 7, 1, 1])
   \<and> SpMMCmpCsr ex_limits Mul Max_op ex_csr ex_ufeat ex_efeat ex_out ex_arg ex_arg
       = Inr ([250, 360, - 2147483648, - 2147483648, 30, 80],
              Some [2, 2, 0, 0, 0, 0], Some [2, 2, 0, 0, 1, 1])"
proof -
  have d: "feat_dim (nd_shape ex_out) = 2" by (simp add: feat_dim_def ex_defs upt_rec)
  have h1: "coo_wf ex_coo" by (simp add: coo_wf_def ex_defs)
  have h2: "operand_ok (use_lhs Mul) ex_ufeat (feat_dim (nd_shape ex_out)) (coo_row ex_coo)"
    unfolding d by (simp add: operand_ok_def ex_defs)
  have h3: "operand_ok (use_rhs Mul) ex_efeat (feat_dim (nd_shape ex_out))
       (edge_ids (coo_data ex_coo) (length (coo_row ex_coo)))"
    unfolding d by (simp add: operand_ok_def edge_ids_def ex_defs)
  have h4: "0 \<le> feat_dim (nd_shape ex_out)" unfolding d by simp
  have h5: "targets_ok (coo_col ex_coo) (feat_dim (nd_shape ex_out)) (int (length (nd_data ex_out)))"
    unfolding d by (simp add: targets_ok_def ex_defs)
  have h6: "int (length (nd_data ex_out)) = Numel ex_out"
    by (simp add: Numel_def ex_defs upt_rec)
  have h7: "arg_ok (use_lhs Mul) ex_arg (int (length (nd_data ex_out)))"
    by (simp add: arg_ok_def ex_defs)
  have h8: "arg_ok (use_rhs Mul) ex_arg (int (length (nd_data ex_out)))"
    by (simp add: arg_ok_def ex_defs)
  have h9: "csr_wf ex_csr" by (simp add: csr_wf_def ex_defs)
  have h10: "operand_ok (use_lhs Mul) ex_ufeat (feat_dim (nd_shape ex_out)) (csr_indices ex_csr)"
    unfolding d by (simp add: operand_ok_def ex_defs)
  have h11: "operand_ok (use_rhs Mul) ex_efeat (feat_dim (nd_shape ex_out))
       (edge_ids (csr_data ex_csr) (length (csr_indices ex_csr)))"
    unfolding d by (simp add: operand_ok_def edge_ids_def ex_defs)
  have h12: "csr_num_rows ex_csr * feat_dim (nd_shape ex_out) \<le> int (length (nd_data ex_out))"
    unfolding d by (simp add: ex_defs)
  have e1: "SpMMCmpCoo ex_limits Mul Max_op ex_coo ex_ufeat ex_efeat ex_out ex_arg ex_arg
       = Inr ([250, 360, - 2147483648, - 2147483648, 30, 80],
              Some [2, 2, 7, 7, 0, 0], Some [2, 2, 7, 7, 1, 1])"
    by (simp add: spmm_eval ex_defs)
  have e2: "SpMMCmpCsr ex_limits Mul Max_op ex_csr ex_ufeat ex_efeat ex_out ex_arg ex_arg
       = Inr ([250, 360, - 2147483648, - 2147483648, 30, 80],
              Some [2, 2, 0, 0, 0, 0], Some [2, 2, 0, 0, 1, 1])"
    by (simp add: spmm_eval ex_defs)
  note t = SpMMCmpCoo_argument_frame [OF h1 h2 h3 h4 h5 h6 h7 h8 h9 h10 h11 h12, of ex_limits Max_op]
  from t e1 e2 h1 h2 h3 h4 h5 h6 h7 h8 h9 h10 h11 h12 show ?thesis by blast
qed

subsection \<open>CSR and COO presentations of one matrix\<close>

lemma perm_bij:
  assumes len: "length perm = n" and dist: "distinct perm"
    and rng: "list_all (\<lambda>i. 0 \<le> i \<and> i < int n) perm"
  shows "inj_on (\<lambda>j. perm ! nat j) {0 ..< int n}"
    and "(\<lambda>j. perm ! nat j) ` {0 ..< int n} = {0 ..< int n}"
proof -
  let ?s = "\<lambda>j. perm ! nat j"
  show inj: "inj_on ?s {0 ..< int n}"
  proof (rule inj_onI)
    fix x y assume x: "x \<in> {0 ..< int n}" and y: "y \<in> {0 ..< int n}" and e: "?s x = ?s y"
    have "nat x < length perm" "nat y < length perm" using x y len by auto
    with e dist have "nat x = nat y" by (simp add: nth_eq_iff_index_eq)
    then show "x = y" using x y by auto
  qed
  have sub: "?s ` {0 ..< int n} \<subseteq> {0 ..< int n}"
  proof
    fix i assume "i \<in> ?s ` {0 ..< int n}"
    then obtain j where j: "j \<in> {0 ..< int n}" "i = perm ! nat j" by blast
    then have "perm ! nat j \<in> set perm" using len by auto
    then show "i \<in> {0 ..< int n}" using rng j(2) by (auto simp: list_all_iff)
  qed
  have "card (?s ` {0 ..< int n}) = card {0 ..< int n}" using inj by (rule card_image)
  then show "?s ` {0 ..< int n} = {0 ..< int n}"
    using sub by (intro card_subset_eq) simp_all
qed

lemma csr_row_exists:
  assumes wf: "csr_wf csr" and j: "0 \<le> j" "j < int (length (csr_indices csr))"
  shows "\<exists>r. 0 \<le> r \<and> r < csr_num_rows csr
             \<and> csr_indptr csr ! nat r \<le> j \<and> j < csr_indptr csr ! nat (r + 1)"
proof (rule ccontr)
  assume no: "\<not> ?thesis"
  let ?ip = "csr_indptr csr"
  have z: "?ip ! 0 = 0" and last: "?ip ! nat (csr_num_rows csr) = int (length (csr_indices csr))"
    and n0: "0 \<le> csr_num_rows csr"
    using wf by (simp_all add: csr_wf_def)
  have "m \<le> nat (csr_num_rows csr) \<Longrightarrow> ?ip ! m \<le> j" for m
  proof (induction m)
    case 0
    then show ?case using z j by simp
  next
    case (Suc m)
    then have "?ip ! m \<le> j" and "int m < csr_num_rows csr" by simp_all
    have "\<not> j < ?ip ! nat (int m + 1)"
    proof
      assume "j < ?ip ! nat (int m + 1)"
      with \<open>?ip ! m \<le> j\<close> \<open>int m < csr_num_rows csr\<close>
      have "0 \<le> int m \<and> int m < csr_num_rows csr
             \<and> csr_indptr csr ! nat (int m) \<le> j \<and> j < csr_indptr csr ! nat (int m + 1)" by simp
      with no show False by blast
    qed
    moreover have "nat (int m + 1) = Suc m" by simp
    ultimately show ?case by simp
  qed
  from this [of "nat (csr_num_rows csr)"] last j show False by simp
qed

lemma csr_row_unique:
  assumes wf: "csr_wf csr"
    and r: "0 \<le> r" "r < csr_num_rows csr"
       "csr_indptr csr ! nat r \<le> j" "j < csr_indptr csr ! nat (r + 1)"
    and s: "0 \<le> s" "s < csr_num_rows csr"
       "csr_indptr csr ! nat s \<le> j" "j < csr_indptr csr ! nat (s + 1)"
  shows "r = s"
proof -
  let ?ip = "csr_indptr csr"
  have len: "int (length ?ip) = csr_num_rows csr + 1" and srt: "sorted ?ip"
    using wf by (simp_all add: csr_wf_def)
  have mono: "?ip ! nat (a + 1) \<le> ?ip ! nat b" if "0 \<le> a" "a < b" "b < csr_num_rows csr" for a b
    using srt that len by (intro sorted_nth_mono) simp_all
  show ?thesis
  proof (rule ccontr)
    assume "r \<noteq> s"
    then consider "r < s" | "s < r" by linarith
    then show False
    proof cases
      case 1
      from mono [OF r(1) 1 s(2)] r(4) s(3) show False by simp
    next
      case 2
      from mono [OF s(1) 2 r(2)] s(4) r(3) show False by simp
    qed
  qed
qed

lemma same_matrix_entry:
  assumes sm: "same_matrix csr coo perm"
    and r: "0 \<le> r" "r < csr_num_rows csr"
    and j: "csr_indptr csr ! nat r \<le> j" "j < csr_indptr csr ! nat (r + 1)"
  shows "coo_col coo ! nat (perm ! nat j) = r"
    and "coo_row coo ! nat (perm ! nat j) = csr_indices csr ! nat j"
    and "eid_of (coo_data coo) (perm ! nat j) = eid_of (csr_data csr) j"
proof -
  have "r \<in> set [0 .. csr_num_rows csr - 1]" using r by simp
  moreover have "j \<in> set [csr_indptr csr ! nat r .. csr_indptr csr ! nat (r + 1) - 1]" using j by simp
  ultimately have "coo_col coo ! nat (perm ! nat j) = r
      \<and> coo_row coo ! nat (perm ! nat j) = csr_indices csr ! nat j
      \<and> eid_of (coo_data coo) (perm ! nat j) = eid_of (csr_data csr) j"
    using sm unfolding same_matrix_def list_all_iff by blast
  then show "coo_col coo ! nat (perm ! nat j) = r"
    and "coo_row coo ! nat (perm ! nat j) = csr_indices csr ! nat j"
    and "eid_of (coo_data coo) (perm ! nat j) = eid_of (csr_data csr) j" by simp_all
qed

lemma same_matrix_row_image:
  assumes wf: "csr_wf csr" and sm: "same_matrix csr coo perm"
    and r: "0 \<le> r" "r < csr_num_rows csr"
  shows "{i. 0 \<le> i \<and> i < int (length (csr_indices csr)) \<and> coo_col coo ! nat i = r}
           = (\<lambda>j. perm ! nat j) ` {csr_indptr csr ! nat r ..< csr_indptr csr ! nat (r + 1)}"
    and "inj_on (\<lambda>j. perm ! nat j) {csr_indptr csr ! nat r ..< csr_indptr csr ! nat (r + 1)}"
proof -
  define N where "N = length (csr_indices csr)"
  let ?s = "\<lambda>j. perm ! nat j"
  let ?row = "{csr_indptr csr ! nat r ..< csr_indptr csr ! nat (r + 1)}"
  have pl: "length perm = N" and pd: "distinct perm"
    and pr: "list_all (\<lambda>i. 0 \<le> i \<and> i < int N) perm"
    using sm by (simp_all add: same_matrix_def N_def)
  note bij = perm_bij [OF pl pd pr]
  note b = csr_nnz_bounds [OF wf r]
  have rowsub: "?row \<subseteq> {0 ..< int N}" using b by (auto simp: N_def)
  show "inj_on ?s ?row" using bij(1) rowsub by (rule inj_on_subset)
  show "{i. 0 \<le> i \<and> i < int (length (csr_indices csr)) \<and> coo_col coo ! nat i = r} = ?s ` ?row"
  proof (intro set_eqI iffI)
    fix i assume "i \<in> {i. 0 \<le> i \<and> i < int (length (csr_indices csr)) \<and> coo_col coo ! nat i = r}"
    then have i: "i \<in> {0 ..< int N}" and c: "coo_col coo ! nat i = r" by (simp_all add: N_def)
    from i bij(2) obtain j where j: "j \<in> {0 ..< int N}" "i = ?s j" by blast
    from csr_row_exists [OF wf] j(1) obtain r' where r': "0 \<le> r'" "r' < csr_num_rows csr"
      "csr_indptr csr ! nat r' \<le> j" "j < csr_indptr csr ! nat (r' + 1)"
      by (auto simp: N_def)
    from same_matrix_entry(1) [OF sm r'] c j(2) have "r' = r" by simp
    with r' have "j \<in> ?row" by simp
    then show "i \<in> ?s ` ?row" using j(2) by blast
  next
    fix i assume "i \<in> ?s ` ?row"
    then obtain j where j: "j \<in> ?row" "i = ?s j" by blast
    then have "j \<in> {0 ..< int N}" using rowsub by blast
    then have "i \<in> {0 ..< int N}" using bij(2) j(2) by blast
    moreover have "coo_col coo ! nat i = r"
      using same_matrix_entry(1) [OF sm r, of j] j by simp
    ultimately show "i \<in> {i. 0 \<le> i \<and> i < int (length (csr_indices csr)) \<and> coo_col coo ! nat i = r}"
      by (simp add: N_def)
  qed
qed

lemma same_matrix_val:
  fixes ufeat efeat :: "('a :: {plus, times}) NDArray option"
  assumes sm: "same_matrix csr coo perm"
    and r: "0 \<le> r" "r < csr_num_rows csr"
    and j: "csr_indptr csr ! nat r \<le> j" "j < csr_indptr csr ! nat (r + 1)"
  shows "coo_val op coo ufeat efeat dim k (perm ! nat j) = csr_val op csr ufeat efeat dim k j"
  using same_matrix_entry [OF sm r j] by (simp add: coo_val_def csr_val_def)

lemma coo_hits_row:
  assumes "0 \<le> k" "k < dim"
  shows "coo_hits coo dim (r * dim + k) i = (coo_col coo ! nat i = r)"
proof
  assume "coo_hits coo dim (r * dim + k) i"
  then have "(r * dim + k) div dim = coo_col coo ! nat i"
    using flat_row_unique [of "coo_col coo ! nat i" dim "r * dim + k"] by (simp add: coo_hits_def)
  then show "coo_col coo ! nat i = r" using flat_div_mod(1) [OF assms, of r] by simp
next
  assume "coo_col coo ! nat i = r"
  then show "coo_hits coo dim (r * dim + k) i" using assms by (simp add: coo_hits_def)
qed


lemma coo_sum_row:
  fixes ufeat efeat :: "('a :: semiring_0) NDArray option"
  assumes wf: "csr_wf csr" and sm: "same_matrix csr coo perm"
    and r: "0 \<le> r" "r < csr_num_rows csr"
    and k: "0 \<le> k" "k < dim"
  shows "coo_sum op coo ufeat efeat dim (int (length (csr_indices csr))) (r * dim + k)
           = csr_sum op csr ufeat efeat dim r k"
proof -
  define N where "N = int (length (csr_indices csr))"
  define v where "v = coo_val op coo ufeat efeat dim k"
  let ?s = "\<lambda>j. perm ! nat j"
  let ?row = "{csr_indptr csr ! nat r ..< csr_indptr csr ! nat (r + 1)}"
  let ?A = "{i. 0 \<le> i \<and> i < N \<and> coo_col coo ! nat i = r}"
  note img = same_matrix_row_image [OF wf sm r]
  have c: "coo_contrib op coo ufeat efeat dim (r * dim + k) i
             = (if coo_col coo ! nat i = r then v i else 0)" for i
    by (simp add: coo_contrib_def coo_hits_row [OF k] v_def)
  have A: "{i \<in> {0 ..< N}. coo_col coo ! nat i = r} = ?A" by auto
  have "coo_sum op coo ufeat efeat dim N (r * dim + k)
          = (\<Sum>i \<in> {0 ..< N}. if coo_col coo ! nat i = r then v i else 0)"
    by (simp add: coo_sum_def c)
  also have "\<dots> = sum v {i \<in> {0 ..< N}. coo_col coo ! nat i = r}"
    by (rule sum.inter_filter [symmetric]) simp
  also have "\<dots> = sum v (?s ` ?row)" using img(1) A by (simp add: N_def)
  also have "\<dots> = (\<Sum>j \<in> ?row. v (?s j))" using img(2) by (simp add: sum.reindex)
  also have "\<dots> = (\<Sum>j \<in> ?row. csr_val op csr ufeat efeat dim k j)"
  proof (rule sum.cong)
    fix j assume "j \<in> ?row"
    then show "v (?s j) = csr_val op csr ufeat efeat dim k j"
      using same_matrix_val [OF sm r, of j op ufeat efeat dim k] by (simp add: v_def)
  qed simp
  finally show ?thesis by (simp add: csr_sum_def N_def)
qed

lemma coo_cmp_row:
  fixes ufeat efeat :: "('a :: {semiring_0, linorder}) NDArray option"
  assumes wf: "csr_wf csr" and sm: "same_matrix csr coo perm"
    and r: "0 \<le> r" "r < csr_num_rows csr"
    and k: "0 \<le> k" "k < dim"
  shows "fst (coo_cmp_cell L op cmp coo ufeat efeat dim xs0 ys0
                (int (length (csr_indices csr))) (r * dim + k))
           = fst (csr_cmp_cell L op cmp csr ufeat efeat dim r k)"
proof -
  define N where "N = int (length (csr_indices csr))"
  define v where "v = coo_val op coo ufeat efeat dim k"
  define z where "z = Cmp_zero L cmp"
  let ?s = "\<lambda>j. perm ! nat j"
  let ?row = "{csr_indptr csr ! nat r ..< csr_indptr csr ! nat (r + 1)}"
  let ?A = "{i. 0 \<le> i \<and> i < N \<and> coo_col coo ! nat i = r}"
  note img = same_matrix_row_image [OF wf sm r]
  have "(\<lambda>c. snd (snd c)) ` set (coo_cands op coo ufeat efeat dim N (r * dim + k)) = v ` ?A"
    by (auto simp: coo_cands_def coo_hits_row [OF k] v_def image_iff)
  also have "\<dots> = v ` ?s ` ?row" using img(1) by (simp add: N_def)
  also have "\<dots> = csr_val op csr ufeat efeat dim k ` ?row"
  proof -
    have "v (?s j) = csr_val op csr ufeat efeat dim k j" if "j \<in> ?row" for j
      using same_matrix_val [OF sm r, of j op ufeat efeat dim k] that by (simp add: v_def)
    then have "(\<lambda>j. v (?s j)) ` ?row = csr_val op csr ufeat efeat dim k ` ?row"
      by (intro image_cong) simp_all
    then show ?thesis by (simp only: image_image)
  qed
  finally have vals: "(\<lambda>c. snd (snd c)) ` set (coo_cands op coo ufeat efeat dim N (r * dim + k))
                        = csr_val op csr ufeat efeat dim k ` ?row" .
  have coo: "fst (coo_cmp_cell L op cmp coo ufeat efeat dim xs0 ys0 N (r * dim + k))
               = cmp_red cmp (insert z (csr_val op csr ufeat efeat dim k ` ?row))"
    unfolding coo_cmp_cell_def fold_cmp_value vals z_def ..
  obtain a ax aw where cell: "csr_cmp_cell L op cmp csr ufeat efeat dim r k = (a, ax, aw)"
    by (cases "csr_cmp_cell L op cmp csr ufeat efeat dim r k") auto
  from csr_cell_post(4) [OF csr_nnz_bounds(2) [OF wf r] cell]
  have "a = cmp_red cmp (insert z (csr_val op csr ufeat efeat dim k ` ?row))" by (simp add: z_def)
  then show ?thesis using coo cell by (simp add: N_def)
qed

lemma operand_ok_subset:
  assumes "operand_ok used t dim ids" "set ids' \<subseteq> set ids"
  shows "operand_ok used t dim ids'"
  using assms by (auto simp: operand_ok_def list_all_iff split: option.splits)

lemma edge_ids_set:
  assumes "case d of None \<Rightarrow> True | Some es \<Rightarrow> length es = n"
  shows "set (edge_ids d n) = (\<lambda>i. eid_of d i) ` {0 ..< int n}"
proof (cases d)
  case None
  have "int ` {0 ..< n} = {0 ..< int n}" by (simp add: image_int_atLeastLessThan)
  then show ?thesis using None by (simp add: edge_ids_def eid_of_def)
next
  case (Some es)
  then have l: "length es = n" using assms by simp
  have "set es = (\<lambda>i. es ! nat i) ` {0 ..< int n}"
  proof (intro set_eqI iffI)
    fix x assume "x \<in> set es"
    then obtain m where "m < length es" "x = es ! m" by (auto simp: in_set_conv_nth)
    then have "int m \<in> {0 ..< int n}" "x = es ! nat (int m)" using l by simp_all
    then show "x \<in> (\<lambda>i. es ! nat i) ` {0 ..< int n}" by blast
  next
    fix x assume "x \<in> (\<lambda>i. es ! nat i) ` {0 ..< int n}"
    then show "x \<in> set es" using l by auto
  qed
  then show ?thesis using Some by (simp add: edge_ids_def eid_of_def)
qed

lemma same_matrix_contract:
  assumes wf: "csr_wf csr" and sm: "same_matrix csr coo perm"
    and lhs: "operand_ok ul ufeat dim (csr_indices csr)"
    and rhs: "operand_ok ur efeat dim (edge_ids (csr_data csr) (length (csr_indices csr)))"
    and dim: "0 \<le> dim"
  shows "coo_wf coo"
    and "operand_ok ul ufeat dim (coo_row coo)"
    and "operand_ok ur efeat dim (edge_ids (coo_data coo) (length (coo_row coo)))"
    and "targets_ok (coo_col coo) dim (csr_num_rows csr * dim)"
proof -
  define N where "N = length (csr_indices csr)"
  let ?s = "\<lambda>j. perm ! nat j"
  have lr: "length (coo_row coo) = N" and cw: "coo_wf coo"
    and pl: "length perm = N" and pd: "distinct perm"
    and pr: "list_all (\<lambda>i. 0 \<le> i \<and> i < int N) perm"
    using sm by (simp_all add: same_matrix_def N_def)
  have lc: "length (coo_col coo) = N" using cw lr by (simp add: coo_wf_def)
  have cd: "case coo_data coo of None \<Rightarrow> True | Some es \<Rightarrow> length es = N"
    using cw lr by (simp add: coo_wf_def split: option.splits)
  have sd: "case csr_data csr of None \<Rightarrow> True | Some es \<Rightarrow> length es = N"
    using wf by (simp add: csr_wf_def N_def split: option.splits)
  note bij = perm_bij [OF pl pd pr]
  have entry: "\<exists>r j. 0 \<le> r \<and> r < csr_num_rows csr \<and> 0 \<le> j \<and> j < int N
                  \<and> coo_col coo ! nat i = r
                  \<and> coo_row coo ! nat i = csr_indices csr ! nat j
                  \<and> eid_of (coo_data coo) i = eid_of (csr_data csr) j"
    if i: "0 \<le> i" "i < int N" for i
  proof -
    have "i \<in> {0 ..< int N}" using i by simp
    then have "i \<in> ?s ` {0 ..< int N}" by (simp only: bij(2))
    then obtain j where j: "j \<in> {0 ..< int N}" "i = ?s j" by blast
    from csr_row_exists [OF wf] j(1) obtain r where r: "0 \<le> r" "r < csr_num_rows csr"
      "csr_indptr csr ! nat r \<le> j" "j < csr_indptr csr ! nat (r + 1)"
      by (auto simp: N_def)
    from same_matrix_entry [OF sm r] j r show ?thesis by auto
  qed
  show "coo_wf coo" by (rule cw)
  have "set (coo_row coo) \<subseteq> set (csr_indices csr)"
  proof
    fix x assume "x \<in> set (coo_row coo)"
    then obtain m where m: "m < N" "x = coo_row coo ! m" using lr by (auto simp: in_set_conv_nth)
    from entry [of "int m"] m obtain j where "0 \<le> j" "j < int N" "x = csr_indices csr ! nat j"
      by auto
    then show "x \<in> set (csr_indices csr)" by (simp add: N_def)
  qed
  with lhs show "operand_ok ul ufeat dim (coo_row coo)" by (rule operand_ok_subset)
  have "set (edge_ids (coo_data coo) N) \<subseteq> set (edge_ids (csr_data csr) N)"
    unfolding edge_ids_set [OF cd] edge_ids_set [OF sd]
  proof
    fix x assume "x \<in> eid_of (coo_data coo) ` {0 ..< int N}"
    then obtain i where i: "0 \<le> i" "i < int N" "x = eid_of (coo_data coo) i" by auto
    from entry [OF i(1,2)] i(3) obtain j where "0 \<le> j" "j < int N" "x = eid_of (csr_data csr) j"
      by auto
    then show "x \<in> eid_of (csr_data csr) ` {0 ..< int N}" by auto
  qed
  with rhs show "operand_ok ur efeat dim (edge_ids (coo_data coo) (length (coo_row coo)))"
    unfolding lr N_def by (rule operand_ok_subset)
  show "targets_ok (coo_col coo) dim (csr_num_rows csr * dim)"
    unfolding targets_ok_def list_all_iff
  proof
    fix c assume "c \<in> set (coo_col coo)"
    then obtain m where m: "m < N" "c = coo_col coo ! m" using lc by (auto simp: in_set_conv_nth)
    from entry [of "int m"] m have c: "0 \<le> c" "c + 1 \<le> csr_num_rows csr" by auto
    have "(c + 1) * dim \<le> csr_num_rows csr * dim" using c(2) dim by (rule mult_right_mono)
    with c(1) show "0 \<le> c \<and> (c + 1) * dim \<le> csr_num_rows csr * dim" by simp
  qed
qed


lemma flat_cell:
  fixes p n dim :: int
  assumes "0 \<le> p" "p < n * dim" "0 \<le> n" "0 \<le> dim"
  shows "0 \<le> p div dim" and "p div dim < n" and "0 \<le> p mod dim" and "p mod dim < dim"
    and "(p div dim) * dim + p mod dim = p"
proof -
  have d: "0 < dim"
  proof (rule ccontr)
    assume "\<not> 0 < dim"
    with assms(4) have "dim = 0" by simp
    with assms(1,2) show False by simp
  qed
  show "0 \<le> p div dim" using assms(1) d by (simp add: pos_imp_zdiv_nonneg_iff)
  show "p div dim < n"
  proof (rule ccontr)
    assume "\<not> p div dim < n"
    then have "n * dim \<le> (p div dim) * dim" using d by (intro mult_right_mono) simp_all
    with flat_split [OF d, of p] assms(2) show False by linarith
  qed
  show "0 \<le> p mod dim" "p mod dim < dim" using d by simp_all
  show "(p div dim) * dim + p mod dim = p" by simp
qed

lemma SpMMSum_agree:
  fixes ufeat efeat :: "('a :: semiring_0) NDArray option"
  assumes wf: "csr_wf csr" and sm: "same_matrix csr coo perm"
    and lhs: "operand_ok (use_lhs op) ufeat (feat_dim (nd_shape out)) (csr_indices csr)"
    and rhs: "operand_ok (use_rhs op) efeat (feat_dim (nd_shape out))
                (edge_ids (csr_data csr) (length (csr_indices csr)))"
    and dim: "0 \<le> feat_dim (nd_shape out)"
    and rows: "Numel out = csr_num_rows csr * feat_dim (nd_shape out)"
    and numel: "int (length (nd_data out)) = Numel out"
  shows "\<exists>res. SpMMSumCsr op csr ufeat efeat out = Inr res
              \<and> SpMMSumCoo op coo ufeat efeat out = Inr res"
proof -
  define dm where "dm = feat_dim (nd_shape out)"
  define n where "n = csr_num_rows csr"
  define N where "N = int (length (csr_indices csr))"
  have len: "int (length (nd_data out)) = n * dm" using rows numel by (simp add: n_def dm_def)
  have n0: "0 \<le> n" using wf by (simp add: csr_wf_def n_def)
  have lr: "int (length (coo_row coo)) = N" using sm by (simp add: same_matrix_def N_def)
  note c = same_matrix_contract [OF wf sm lhs rhs dim]
  have tg: "targets_ok (coo_col coo) (feat_dim (nd_shape out)) (int (length (nd_data out)))"
    using c(4) len by (simp add: n_def dm_def)
  have out: "csr_num_rows csr * feat_dim (nd_shape out) \<le> int (length (nd_data out))"
    using len by (simp add: n_def dm_def)
  from SpMMSumCsr_filled [OF wf lhs rhs dim out]
  obtain res1 where run1: "SpMMSumCsr op csr ufeat efeat out = Inr res1"
    and f1: "filled (nd_data out) res1 0 (n * dm)
               (\<lambda>p. csr_sum op csr ufeat efeat dm (p div dm) (p mod dm))"
    unfolding n_def dm_def by blast
  from SpMMSumCoo_filled [OF c(1) c(2) c(3) dim tg numel]
  obtain res2 where run2: "SpMMSumCoo op coo ufeat efeat out = Inr res2"
    and f2: "filled (nd_data out) res2 0 (n * dm) (coo_sum op coo ufeat efeat dm N)"
    unfolding len lr dm_def [symmetric] by blast
  have "res1 = res2"
  proof (rule nth_equalityI)
    show "length res1 = length res2" using f1 f2 by (simp add: filled_def)
    fix i assume "i < length res1"
    then have i: "0 \<le> int i" "int i < n * dm" using f1 len by (simp_all add: filled_def)
    note cell = flat_cell [OF i n0 dim [folded dm_def]]
    have "res1 ! i = csr_sum op csr ufeat efeat dm (int i div dm) (int i mod dm)"
      using f1 i len unfolding filled_def by (metis nat_int)
    moreover have "res2 ! i = coo_sum op coo ufeat efeat dm N (int i)"
      using f2 i len unfolding filled_def by (metis nat_int)
    moreover have "coo_sum op coo ufeat efeat dm N ((int i div dm) * dm + int i mod dm)
                     = csr_sum op csr ufeat efeat dm (int i div dm) (int i mod dm)"
      unfolding N_def
      by (rule coo_sum_row [OF wf sm cell(1) cell(2) [unfolded n_def] cell(3) cell(4)])
    ultimately show "res1 ! i = res2 ! i" using cell(5) by simp
  qed
  with run1 run2 show ?thesis by simp
qed

lemma SpMMCmp_agree:
  fixes ufeat efeat :: "('a :: {semiring_0, linorder}) NDArray option"
  assumes wf: "csr_wf csr" and sm: "same_matrix csr coo perm"
    and lhs: "operand_ok (use_lhs op) ufeat (feat_dim (nd_shape out)) (csr_indices csr)"
    and rhs: "operand_ok (use_rhs op) efeat (feat_dim (nd_shape out))
                (edge_ids (csr_data csr) (length (csr_indices csr)))"
    and dim: "0 \<le> feat_dim (nd_shape out)"
    and rows: "Numel out = csr_num_rows csr * feat_dim (nd_shape out)"
    and numel: "int (length (nd_data out)) = Numel out"
    and au: "arg_ok (use_lhs op) argu (Numel out)"
    and ae: "arg_ok (use_rhs op) arge (Numel out)"
  shows "\<exists>res ax aw ax' aw'.
           SpMMCmpCsr L op cmp csr ufeat efeat out argu arge = Inr (res, ax, aw)
           \<and> SpMMCmpCoo L op cmp coo ufeat efeat out argu arge = Inr (res, ax', aw')"
proof -
  define dm where "dm = feat_dim (nd_shape out)"
  define n where "n = csr_num_rows csr"
  define N where "N = int (length (csr_indices csr))"
  have len: "int (length (nd_data out)) = n * dm" using rows numel by (simp add: n_def dm_def)
  have n0: "0 \<le> n" using wf by (simp add: csr_wf_def n_def)
  have lr: "int (length (coo_row coo)) = N" using sm by (simp add: same_matrix_def N_def)
  note c = same_matrix_contract [OF wf sm lhs rhs dim]
  have tg: "targets_ok (coo_col coo) (feat_dim (nd_shape out)) (int (length (nd_data out)))"
    using c(4) len by (simp add: n_def dm_def)
  have out: "csr_num_rows csr * feat_dim (nd_shape out) \<le> int (length (nd_data out))"
    using len by (simp add: n_def dm_def)
  have au1: "arg_ok (use_lhs op) argu (csr_num_rows csr * feat_dim (nd_shape out))"
    and ae1: "arg_ok (use_rhs op) arge (csr_num_rows csr * feat_dim (nd_shape out))"
    using au ae rows by simp_all
  have au2: "arg_ok (use_lhs op) argu (int (length (nd_data out)))"
    and ae2: "arg_ok (use_rhs op) arge (int (length (nd_data out)))"
    using au ae numel by simp_all
  from SpMMCmpCsr_cells [OF wf lhs rhs dim out au1 ae1, of L cmp]
  obtain res1 ax aw where run1: "SpMMCmpCsr L op cmp csr ufeat efeat out argu arge
             = Inr (res1, if use_lhs op then Some ax else None, if use_rhs op then Some aw else None)"
    and l1: "length res1 = length (nd_data out)"
    and c1: "\<forall>r k. 0 \<le> r \<and> r < n \<and> 0 \<le> k \<and> k < dm \<longrightarrow>
                 res1 ! nat (r * dm + k) = fst (csr_cmp_cell L op cmp csr ufeat efeat dm r k)"
    unfolding n_def dm_def by blast
  from SpMMCmpCoo_cells [OF c(1) c(2) c(3) dim tg numel au2 ae2, of L cmp]
  obtain res2 ax' aw' where run2: "SpMMCmpCoo L op cmp coo ufeat efeat out argu arge
             = Inr (res2, if use_lhs op then Some ax' else None, if use_rhs op then Some aw' else None)"
    and l2: "length res2 = length (nd_data out)"
    and c2: "\<forall>p. 0 \<le> p \<and> p < n * dm \<longrightarrow>
                 res2 ! nat p = fst (coo_cmp_cell L op cmp coo ufeat efeat dm
                                     (feat argu) (feat arge) N p)"
    unfolding len lr dm_def [symmetric] by blast
  have "res1 = res2"
  proof (rule nth_equalityI)
    show "length res1 = length res2" using l1 l2 by simp
    fix i assume "i < length res1"
    then have i: "0 \<le> int i" "int i < n * dm" using l1 len by simp_all
    note cell = flat_cell [OF i n0 dim [folded dm_def]]
    have "res1 ! nat ((int i div dm) * dm + int i mod dm)
            = fst (csr_cmp_cell L op cmp csr ufeat efeat dm (int i div dm) (int i mod dm))"
      using c1 cell(1-4) by blast
    then have "res1 ! i = fst (csr_cmp_cell L op cmp csr ufeat efeat dm (int i div dm) (int i mod dm))"
      unfolding cell(5) by simp
    moreover have "res2 ! nat (int i) = fst (coo_cmp_cell L op cmp coo ufeat efeat dm
                                     (feat argu) (feat arge) N (int i))"
      using c2 i by blast
    moreover have "fst (coo_cmp_cell L op cmp coo ufeat efeat dm (feat argu) (feat arge) N
                          ((int i div dm) * dm + int i mod dm))
                     = fst (csr_cmp_cell L op cmp csr ufeat efeat dm (int i div dm) (int i mod dm))"
      unfolding N_def
      by (rule coo_cmp_row [OF wf sm cell(1) cell(2) [unfolded n_def] cell(3) cell(4)])
    ultimately show "res1 ! i = res2 ! i" using cell(5) by simp
  qed
  with run1 run2 show ?thesis by blast
qed

subsection \<open>Agreement of the CSR and COO kernels\<close>

text \<open>
  C3. A CSR matrix and the COO matrix that presents the same nonzeros under the incoming-edges
  convention (\<open>col\<close> the aggregation target, \<open>row\<close> the neighbour, the same edge ids), run
  with the same value operator on the same operands and an output of \<open>num_rows\<close> rows:
  \<open>SpMMSumCsr\<close> and \<open>SpMMSumCoo\<close> both return, with equal output buffers (the element type
  is a semiring, so addition is exact, associative and commutative), and \<open>SpMMCmpCsr\<close> and
  \<open>SpMMCmpCoo\<close> both return, with equal value buffers (the argument buffers may differ).
\<close>

theorem SpMM_csr_coo_agree:
  fixes ufeat efeat :: "('a :: {semiring_0, linorder}) NDArray option"
  assumes wf: "csr_wf csr" and sm: "same_matrix csr coo perm"
    and lhs: "operand_ok (use_lhs op) ufeat (feat_dim (nd_shape out)) (csr_indices csr)"
    and rhs: "operand_ok (use_rhs op) efeat (feat_dim (nd_shape out))
                (edge_ids (csr_data csr) (length (csr_indices csr)))"
    and dim: "0 \<le> feat_dim (nd_shape out)"
    and rows: "Numel out = csr_num_rows csr * feat_dim (nd_shape out)"
    and numel: "int (length (nd_data out)) = Numel out"
    and au: "arg_ok (use_lhs op) argu (Numel out)"
    and ae: "arg_ok (use_rhs op) arge (Numel out)"
  shows "(\<exists>res. SpMMSumCsr op csr ufeat efeat out = Inr res
              \<and> SpMMSumCoo op coo ufeat efeat out = Inr res)
       \<and> (\<exists>res ax aw ax' aw'.
             SpMMCmpCsr L op cmp csr ufeat efeat out argu arge = Inr (res, ax, aw)
             \<and> SpMMCmpCoo L op cmp coo ufeat efeat out argu arge = Inr (res, ax', aw'))"
  using SpMMSum_agree [OF wf sm lhs rhs dim rows numel]
    SpMMCmp_agree [OF wf sm lhs rhs dim rows numel au ae, of L cmp]
  by (rule conjI)

theorem SpMM_csr_coo_agree_witness:
  "csr_wf ex_csr \<and> same_matrix ex_csr ex_coo ex_perm
   \<and> operand_ok (use_lhs Mul) ex_ufeat (feat_dim (nd_shape ex_out)) (csr_indices ex_csr)
   \<and> operand_ok (use_rhs Mul) ex_efeat (feat_dim (nd_shape ex_out))
       (edge_ids (csr_data ex_csr) (length (csr_indices ex_csr)))
   \<and> 0 \<le> feat_dim (nd_shape ex_out)
   \<and> Numel ex_out = csr_num_rows ex_csr * feat_dim (nd_shape ex_out)
   \<and> int (length (nd_data ex_out)) = Numel ex_out
   \<and> arg_ok (use_lhs Mul) ex_arg (Numel ex_out)
   \<and> arg_ok (use_rhs Mul) ex_arg (Numel ex_out)
   \<and> SpMMSumCsr Mul ex_csr ex_ufeat ex_efeat ex_out = Inr [460, 680, 0, 0, 60, 160]
   \<and> SpMMSumCoo Mul ex_coo ex_ufeat ex_efeat ex_out = Inr [460, 680, 0, 0, 60, 160]
   \<and> SpMMCmpCsr ex_limits Mul Max_op ex_csr ex_ufeat ex_efeat ex_out ex_arg ex_arg
       = Inr ([250, 360, - 2147483648, - 2147483648, 30, 80],
              Some [2, 2, 0, 0, 0, 0], Some [2, 2, 0, 0, 1, 1])
   \<and> SpMMCmpCoo ex_limits Mul Max_op ex_coo ex_ufeat ex_efeat ex_out ex_arg ex_arg
       = Inr ([250, 360, - 2147483648, - 2147483648, 30, 80],
              Some [2, 2, 7, 7, 0, 0], Some [2, 2, 7, 7, 1, 1])
   \<and> (\<exists>res. SpMMSumCsr Mul ex_csr ex_ufeat ex_efeat ex_out = Inr res
              \<and> SpMMSumCoo Mul ex_coo ex_ufeat ex_efeat ex_out = Inr res)
   \<and> (\<exists>res ax aw ax' aw'.
         SpMMCmpCsr ex_limits Mul Max_op ex_csr ex_ufeat ex_efeat ex_out ex_arg ex_arg
           = Inr (res, ax, aw)
         \<and> SpMMCmpCoo ex_limits Mul Max_op ex_coo ex_ufeat ex_efeat ex_out ex_arg ex_arg
           = Inr (res, ax', aw'))"
proof -
  have d: "feat_dim (nd_shape ex_out) = 2" by (simp add: feat_dim_def ex_defs upt_rec)
  have nm: "Numel ex_out = 6" by (simp add: Numel_def ex_defs upt_rec)
  have h1: "csr_wf ex_csr" by (simp add: csr_wf_def ex_defs)
  have h2: "same_matrix ex_csr ex_coo ex_perm"
    by (simp add: same_matrix_def coo_wf_def eid_of_def ex_defs upto.simps)
  have h3: "operand_ok (use_lhs Mul) ex_ufeat (feat_dim (nd_shape ex_out)) (csr_indices ex_csr)"
    unfolding d by (simp add: operand_ok_def ex_defs)
  have h4: "operand_ok (use_rhs Mul) ex_efeat (feat_dim (nd_shape ex_out))
       (edge_ids (csr_data ex_csr) (length (csr_indices ex_csr)))"
    unfolding d by (simp add: operand_ok_def edge_ids_def ex_defs)
  have h5: "0 \<le> feat_dim (nd_shape ex_out)" unfolding d by simp
  have h6: "Numel ex_out = csr_num_rows ex_csr * feat_dim (nd_shape ex_out)"
    unfolding d nm by (simp add: ex_defs)
  have h7: "int (length (nd_data ex_out)) = Numel ex_out" unfolding nm by (simp add: ex_defs)
  have h8: "arg_ok (use_lhs Mul) ex_arg (Numel ex_out)" unfolding nm by (simp add: arg_ok_def ex_defs)
  have h9: "arg_ok (use_rhs Mul) ex_arg (Numel ex_out)" unfolding nm by (simp add: arg_ok_def ex_defs)
  have e1: "SpMMSumCsr Mul ex_csr ex_ufeat ex_efeat ex_out = Inr [460, 680, 0, 0, 60, 160]"
    by (simp add: spmm_eval ex_defs)
  have r6: "replicate 6 (0 :: int) = [0, 0, 0, 0, 0, 0]" by (simp add: numeral_eq_Suc)
  have e2: "SpMMSumCoo Mul ex_coo ex_ufeat ex_efeat ex_out = Inr [460, 680, 0, 0, 60, 160]"
    by (simp add: spmm_eval ex_defs r6)
  have e3: "SpMMCmpCsr ex_limits Mul Max_op ex_csr ex_ufeat ex_efeat ex_out ex_arg ex_arg
       = Inr ([250, 360, - 2147483648, - 2147483648, 30, 80],
              Some [2, 2, 0, 0, 0, 0], Some [2, 2, 0, 0, 1, 1])"
    by (simp add: spmm_eval ex_defs)
  have e4: "SpMMCmpCoo ex_limits Mul Max_op ex_coo ex_ufeat ex_efeat ex_out ex_arg ex_arg
       = Inr ([250, 360, - 2147483648, - 2147483648, 30, 80],
              Some [2, 2, 7, 7, 0, 0], Some [2, 2, 7, 7, 1, 1])"
    by (simp add: spmm_eval ex_defs)
  note t = SpMM_csr_coo_agree [OF h1 h2 h3 h4 h5 h6 h7 h8 h9, of ex_limits Max_op]
  from t h1 h2 h3 h4 h5 h6 h7 h8 h9 e1 e2 e3 e4 show ?thesis by (intro conjI) blast+
qed

end
